theory Spec2Isabelle
  imports Main "HOL-Library.Sublist"
begin

text \<open>
  The middleware engine of \<open>Middlewares.js\<close>: an ordered chain of functions, the
  operations that change the chain (\<open>use\<close>, \<open>unuse\<close>, \<open>useFirst\<close>, \<open>useBefore\<close>,
  \<open>useAfter\<close>, \<open>reset\<close>), the two operations that run it (\<open>process\<close>,
  \<open>processWithStop\<close>) and, from the single-file build of the same class, the helpers
  \<open>wrap\<close> and \<open>wrapWithStop\<close>.  Private methods \<open>#name\<close> are written \<open>priv_name\<close>.
\<close>

section \<open>JavaScript values\<close>

text \<open>
  The values that reach the engine.  Functions, objects and error objects are references:
  two of them are strictly equal exactly when they are the same reference, which the
  model renders as equality of the reference number (or, for the error objects, of the
  constructor and message, which is all the engine and its callers ever look at).
  Numbers are integers here; floating point and \<open>NaN\<close> are outside the model.
  \<open>StopCallback\<close> is the arrow function \<open>stop\<close> that \<open>processWithStop\<close> creates.
\<close>

datatype jsval =
    Undefined
  | Null
  | Bool bool
  | Num int
  | Str string
  | Function nat
  | AsyncFunction nat
  | GeneratorFunction nat
  | Object nat
  | Error string
  | MiddlewaresError string
  | TypeError string
  | StopCallback

text \<open>\<open>Object.prototype.toString.call(value)\<close>.\<close>

fun toStringTag :: "jsval \<Rightarrow> string" where
  "toStringTag Undefined = ''[object Undefined]''"
| "toStringTag Null = ''[object Null]''"
| "toStringTag (Bool b) = ''[object Boolean]''"
| "toStringTag (Num n) = ''[object Number]''"
| "toStringTag (Str s) = ''[object String]''"
| "toStringTag (Function k) = ''[object Function]''"
| "toStringTag (AsyncFunction k) = ''[object AsyncFunction]''"
| "toStringTag (GeneratorFunction k) = ''[object GeneratorFunction]''"
| "toStringTag (Object k) = ''[object Object]''"
| "toStringTag (Error m) = ''[object Error]''"
| "toStringTag (MiddlewaresError m) = ''[object Error]''"
| "toStringTag (TypeError m) = ''[object Error]''"
| "toStringTag StopCallback = ''[object Function]''"

definition Tag_FUNCTION :: string where
  "Tag_FUNCTION = ''[object Function]''"

definition Tag_ASYNC_FUNCTION :: string where
  "Tag_ASYNC_FUNCTION = ''[object AsyncFunction]''"

text \<open>\<open>lib/isFunction.js\<close>; \<open>isMiddleware\<close> of the single-file build has the same body.\<close>

definition isFunction :: "jsval \<Rightarrow> bool" where
  "isFunction v = (let tag = toStringTag v in tag = Tag_FUNCTION \<or> tag = Tag_ASYNC_FUNCTION)"

definition isMiddleware :: "jsval \<Rightarrow> bool" where
  "isMiddleware v = (let tag = toStringTag v in tag = Tag_FUNCTION \<or> tag = Tag_ASYNC_FUNCTION)"

text \<open>JavaScript truthiness, as \<open>if (err)\<close> and \<open>if (!result)\<close> read a value.\<close>

fun truthy :: "jsval \<Rightarrow> bool" where
  "truthy Undefined = False"
| "truthy Null = False"
| "truthy (Bool b) = b"
| "truthy (Num n) = (n \<noteq> 0)"
| "truthy (Str s) = (s \<noteq> [])"
| "truthy _ = True"

definition VALUE_IS_NOT_A_MIDDLEWARE :: string where
  "VALUE_IS_NOT_A_MIDDLEWARE =
     ''Value is not a middleware. Expected a Function or an AsyncFunction''"

text \<open>The outcome of a call: it returns a value or throws one.\<close>

datatype reply = Returned jsval | Threw jsval

text \<open>A settled promise, as the caller of an \<open>async\<close> method sees it.\<close>

datatype settled = Resolved jsval | Rejected jsval

section \<open>The instance state\<close>

text \<open>
  \<open>#middlewares\<close> is a reference to an array object.  \<open>push\<close>, \<open>unshift\<close> and
  \<open>splice\<close> change that object in place, while \<open>#unuseOne\<close> and \<open>reset\<close> store a
  reference to a new array; a \<open>for ... of\<close> loop that is running keeps the array it
  started on.  So arrays live in a store, \<open>heap\<close>, and \<open>middlewares\<close> is an address.

  \<open>world\<close> is everything outside the instance that steps read and write.  \<open>trace\<close>
  is an observation log, the counterpart of the call records the test suite's mock
  functions keep: the engine's code never reads it.
\<close>

datatype event =
    Invoked jsval "jsval list"
  | Completed reply
  | StopCalled "jsval list"
  | Downstream jsval "jsval list"

record 'w state =
  heap :: "nat \<Rightarrow> jsval list"
  fresh :: nat
  middlewares :: nat
  world :: "'w"
  trace :: "event list"

definition new_Middlewares :: "'w \<Rightarrow> 'w state" where
  "new_Middlewares w =
     \<lparr>heap = (\<lambda>a. []), fresh = 1, middlewares = 0, world = w, trace = []\<rparr>"

text \<open>The array \<open>this.#middlewares\<close> refers to at the moment.\<close>

definition chain :: "'w state \<Rightarrow> jsval list" where
  "chain st = heap st (middlewares st)"

definition length_getter :: "'w state \<Rightarrow> nat" where
  "length_getter st = length (heap st (middlewares st))"

section \<open>Mutation operations\<close>

definition BEFORE :: nat where
  "BEFORE = 0"

definition AFTER :: nat where
  "AFTER = 1"

text \<open>\<open>array.splice(start, 0, item)\<close>: a start past the end is clamped to the length.\<close>

definition splice_insert :: "'a list \<Rightarrow> nat \<Rightarrow> 'a \<Rightarrow> 'a list" where
  "splice_insert xs start item = take start xs @ item # drop start xs"

definition priv_useOne :: "jsval \<Rightarrow> 'w state \<Rightarrow> 'w state" where
  "priv_useOne middleware st =
     st\<lparr>heap := (heap st)(middlewares st := heap st (middlewares st) @ [middleware])\<rparr>"

definition priv_unuseOne :: "jsval \<Rightarrow> 'w state \<Rightarrow> 'w state" where
  "priv_unuseOne middleware st =
     st\<lparr>heap := (heap st)(fresh st := filter (\<lambda>m. m \<noteq> middleware) (heap st (middlewares st))),
        middlewares := fresh st,
        fresh := Suc (fresh st)\<rparr>"

definition priv_useFirst :: "jsval \<Rightarrow> 'w state \<Rightarrow> 'w state" where
  "priv_useFirst middleware st =
     st\<lparr>heap := (heap st)(middlewares st := middleware # heap st (middlewares st))\<rparr>"

text \<open>
  The loop of \<open>#useRelative\<close> on the array's contents: \<open>i\<close> is the loop variable,
  \<open>i + 1 + 1\<close> is the \<open>i += 1\<close> of the body followed by the \<open>i++\<close> of the loop header.
\<close>

function useRelative_loop :: "jsval \<Rightarrow> jsval \<Rightarrow> nat \<Rightarrow> nat \<Rightarrow> jsval list \<Rightarrow> jsval list" where
  "useRelative_loop middleware fn diff i ms =
     (if i < length ms then
        (if fn \<noteq> ms ! i then useRelative_loop middleware fn diff (i + 1) ms
         else useRelative_loop middleware fn diff (i + 1 + 1) (splice_insert ms (i + diff) middleware))
      else ms)"
  by pat_completeness auto
termination
  by (relation "measure (\<lambda>(middleware, fn, diff, i, ms). length ms - i)")
     (auto simp: splice_insert_def)

declare useRelative_loop.simps [simp del]

definition priv_useRelative :: "jsval \<Rightarrow> jsval \<Rightarrow> nat \<Rightarrow> 'w state \<Rightarrow> 'w state" where
  "priv_useRelative middleware fn diff st =
     st\<lparr>heap := (heap st)(middlewares st :=
        useRelative_loop middleware fn diff 0 (heap st (middlewares st)))\<rparr>"

text \<open>
  The dispatch table of \<open>#change\<close>.  The extra arguments \<open>fn\<close> and \<open>diff\<close> are only
  passed for \<open>useRelative\<close>; the other three commands ignore them.
\<close>

datatype command = Use | Unuse | UseFirst | UseRelative

fun commands :: "command \<Rightarrow> jsval \<Rightarrow> jsval \<Rightarrow> nat \<Rightarrow> 'w state \<Rightarrow> 'w state" where
  "commands Use m fn diff st = priv_useOne m st"
| "commands Unuse m fn diff st = priv_unuseOne m st"
| "commands UseFirst m fn diff st = priv_useFirst m st"
| "commands UseRelative m fn diff st = priv_useRelative m fn diff st"

text \<open>
  \<open>#change\<close>: the loop over the candidates.  A candidate that is not a function throws
  at once, leaving the state as the candidates before it made it.
\<close>

fun priv_change :: "command \<Rightarrow> jsval list \<Rightarrow> jsval \<Rightarrow> nat \<Rightarrow> 'w state \<Rightarrow> reply \<times> 'w state" where
  "priv_change cmd [] fn diff st = (Returned Undefined, st)"
| "priv_change cmd (middleware # rest) fn diff st =
     (if \<not> isFunction middleware
      then (Threw (MiddlewaresError VALUE_IS_NOT_A_MIDDLEWARE), st)
      else priv_change cmd rest fn diff (commands cmd middleware fn diff st))"

definition use :: "jsval list \<Rightarrow> 'w state \<Rightarrow> reply \<times> 'w state" where
  "use ms st = priv_change Use ms Undefined 0 st"

definition unuse :: "jsval list \<Rightarrow> 'w state \<Rightarrow> reply \<times> 'w state" where
  "unuse ms st = priv_change Unuse ms Undefined 0 st"

definition useFirst :: "jsval list \<Rightarrow> 'w state \<Rightarrow> reply \<times> 'w state" where
  "useFirst ms st = priv_change UseFirst (rev ms) Undefined 0 st"

definition useBefore :: "jsval \<Rightarrow> jsval list \<Rightarrow> 'w state \<Rightarrow> reply \<times> 'w state" where
  "useBefore middleware ms st = priv_change UseRelative ms middleware BEFORE st"

definition useAfter :: "jsval \<Rightarrow> jsval list \<Rightarrow> 'w state \<Rightarrow> reply \<times> 'w state" where
  "useAfter middleware ms st = priv_change UseRelative ms middleware AFTER st"

definition reset :: "'w state \<Rightarrow> 'w state" where
  "reset st =
     st\<lparr>heap := (heap st)(fresh st := []), middlewares := fresh st, fresh := Suc (fresh st)\<rparr>"

section \<open>Steps\<close>

text \<open>
  A step is a JavaScript function, and the engine cannot look inside it.  What the engine
  can observe of one call of a step is the sequence of calls the step makes back into the
  engine before it settles: calls of the \<open>stop\<close> callback it was handed, and calls of
  the instance's own mutation methods.  A \<open>body\<close> is that behaviour as a tree:

  \<^item> \<open>Return v w\<close>: the awaited call yields \<open>v\<close>, leaving the outside world as \<open>w\<close>;
  \<^item> \<open>Throw e w\<close>: the call throws \<open>e\<close> (or its promise rejects with \<open>e\<close>);
  \<^item> \<open>Call c k h\<close>: the step calls \<open>c\<close>; it goes on as \<open>k\<close> when the call returns and
    as \<open>h\<close> when the call throws.  A step that does not catch the exception has
    \<open>h = Throw e w\<close> for the exception \<open>e\<close>; a step with a \<open>try ... catch\<close> around
    the call has any other \<open>h\<close>.

  A body is finite, so a step that never settles is outside the model, as are steps
  that start another run of the same instance and calls of \<open>stop\<close> made after the step
  has settled.  The environment \<open>env\<close> gives each function value its body for the
  arguments it is called with and the world it is called in; it stands for the
  JavaScript semantics of awaiting the call, so for a value that cannot be called its body
  is the \<open>Throw\<close> of a \<open>TypeError\<close>.  Every theorem below holds for every environment.
\<close>

datatype call =
    Stop "jsval list"
  | CallUse "jsval list"
  | CallUnuse "jsval list"
  | CallUseFirst "jsval list"
  | CallUseBefore jsval "jsval list"
  | CallUseAfter jsval "jsval list"
  | CallReset

datatype 'w body =
    Return jsval "'w"
  | Throw jsval "'w"
  | Call call "'w body" "'w body"

type_synonym 'w env = "jsval \<Rightarrow> jsval list \<Rightarrow> 'w \<Rightarrow> 'w body"

text \<open>
  The closure \<open>stop\<close> of \<open>processWithStop\<close>.  The boolean is the captured variable
  \<open>isStop\<close>; \<open>err\<close> is the first argument, \<open>undefined\<close> when there is none.
\<close>

definition stop :: "jsval list \<Rightarrow> bool \<Rightarrow> reply \<times> bool" where
  "stop arguments isStop =
     (let err = (case arguments of [] \<Rightarrow> Undefined | e # _ \<Rightarrow> e)
      in if truthy err then (Threw err, True) else (Returned Undefined, True))"

text \<open>
  One call from inside a step.  \<open>has_stop\<close> says whether the step was handed the
  callback: \<open>process\<close> hands none, so a step that calls its missing trailing argument
  there calls \<open>undefined\<close>, which throws a \<open>TypeError\<close>.
\<close>

fun exec_call :: "bool \<Rightarrow> call \<Rightarrow> bool \<Rightarrow> 'w state \<Rightarrow> reply \<times> bool \<times> 'w state" where
  "exec_call has_stop (Stop arguments) isStop st =
     (if has_stop
      then (let (r, isStop') = stop arguments isStop
            in (r, isStop', st\<lparr>trace := trace st @ [StopCalled arguments]\<rparr>))
      else (Threw (TypeError ''stop is not a function''), isStop, st))"
| "exec_call has_stop (CallUse ms) isStop st =
     (let (r, st') = use ms st in (r, isStop, st'))"
| "exec_call has_stop (CallUnuse ms) isStop st =
     (let (r, st') = unuse ms st in (r, isStop, st'))"
| "exec_call has_stop (CallUseFirst ms) isStop st =
     (let (r, st') = useFirst ms st in (r, isStop, st'))"
| "exec_call has_stop (CallUseBefore m ms) isStop st =
     (let (r, st') = useBefore m ms st in (r, isStop, st'))"
| "exec_call has_stop (CallUseAfter m ms) isStop st =
     (let (r, st') = useAfter m ms st in (r, isStop, st'))"
| "exec_call has_stop CallReset isStop st = (Returned Undefined, isStop, reset st)"

fun run_body :: "bool \<Rightarrow> 'w body \<Rightarrow> bool \<Rightarrow> 'w state \<Rightarrow> reply \<times> bool \<times> 'w state" where
  "run_body has_stop (Return v w) isStop st = (Returned v, isStop, st\<lparr>world := w\<rparr>)"
| "run_body has_stop (Throw e w) isStop st = (Threw e, isStop, st\<lparr>world := w\<rparr>)"
| "run_body has_stop (Call c k h) isStop st =
     (case exec_call has_stop c isStop st of
        (Returned v, isStop', st') \<Rightarrow> run_body has_stop k isStop' st'
      | (Threw e, isStop', st') \<Rightarrow> run_body has_stop h isStop' st')"

section \<open>Execution operations\<close>

text \<open>
  \<open>for (const middleware of this.#middlewares)\<close> takes the array object once, at address
  \<open>a\<close>, and then reads it by index, comparing the index with the array's length of the
  moment before every step.  A step that keeps appending to the array keeps the loop
  running for ever, so the loops are partial functions: \<open>None\<close> is a run that never
  settles.
\<close>

partial_function (option) process_loop ::
  "'w env \<Rightarrow> nat \<Rightarrow> nat \<Rightarrow> jsval list \<Rightarrow> 'w state \<Rightarrow> (settled \<times> 'w state) option" where
  "process_loop env a i arguments st =
     (if i < length (heap st a) then
        (let middleware = heap st a ! i;
             st1 = st\<lparr>trace := trace st @ [Invoked middleware arguments]\<rparr>;
             (r, b, st2) = run_body False (env middleware arguments (world st1)) False st1;
             st3 = st2\<lparr>trace := trace st2 @ [Completed r]\<rparr>
         in case r of
              Threw e \<Rightarrow> Some (Rejected e, st3)
            | Returned isStop \<Rightarrow>
                if isStop = Bool False then Some (Resolved (Bool False), st3)
                else process_loop env a (i + 1) arguments st3)
      else Some (Resolved (Bool True), st))"

declare process_loop.simps [code]

definition process :: "'w env \<Rightarrow> jsval list \<Rightarrow> 'w state \<Rightarrow> (settled \<times> 'w state) option" where
  "process env arguments st = process_loop env (middlewares st) 0 arguments st"

partial_function (option) processWithStop_loop ::
  "'w env \<Rightarrow> nat \<Rightarrow> nat \<Rightarrow> jsval list \<Rightarrow> bool \<Rightarrow> 'w state \<Rightarrow> (settled \<times> 'w state) option" where
  "processWithStop_loop env a i arguments isStop st =
     (if i < length (heap st a) then
        (let middleware = heap st a ! i;
             st1 = st\<lparr>trace := trace st @ [Invoked middleware (arguments @ [StopCallback])]\<rparr>;
             (r, isStop', st2) =
               run_body True (env middleware (arguments @ [StopCallback]) (world st1)) isStop st1;
             st3 = st2\<lparr>trace := trace st2 @ [Completed r]\<rparr>
         in case r of
              Threw e \<Rightarrow> Some (Rejected e, st3)
            | Returned v \<Rightarrow>
                if isStop' then Some (Resolved (Bool False), st3)
                else processWithStop_loop env a (i + 1) arguments isStop' st3)
      else Some (Resolved (Bool True), st))"

declare processWithStop_loop.simps [code]

definition processWithStop ::
  "'w env \<Rightarrow> jsval list \<Rightarrow> 'w state \<Rightarrow> (settled \<times> 'w state) option" where
  "processWithStop env arguments st =
     processWithStop_loop env (middlewares st) 0 arguments False st"

section \<open>The wrapping helper\<close>

text \<open>
  \<open>fn.apply(this, arguments)\<close> for the downstream function, whose behaviour \<open>fn\<close> is a
  body like a step's; it is handed no \<open>stop\<close> callback.
\<close>

definition apply_fn ::
  "(jsval \<Rightarrow> jsval list \<Rightarrow> 'w \<Rightarrow> 'w body) \<Rightarrow> jsval \<Rightarrow> jsval list \<Rightarrow> 'w state \<Rightarrow> reply \<times> 'w state" where
  "apply_fn fn this arguments st =
     (let st1 = st\<lparr>trace := trace st @ [Downstream this arguments]\<rparr>;
          (r, b, st2) = run_body False (fn this arguments (world st1)) False st1
      in (r, st2))"

datatype exec_type = Process | ProcessWithStop

fun exec_by_type ::
  "exec_type \<Rightarrow> 'w env \<Rightarrow> jsval list \<Rightarrow> 'w state \<Rightarrow> (settled \<times> 'w state) option" where
  "exec_by_type Process = process"
| "exec_by_type ProcessWithStop = processWithStop"

text \<open>
  The \<open>async function\<close> that \<open>#wrap\<close> returns, applied to its \<open>this\<close> and its
  arguments: the value an \<open>async\<close> function returns resolves its promise, what it throws
  rejects it.
\<close>

definition priv_wrap ::
  "'w env \<Rightarrow> (jsval \<Rightarrow> jsval list \<Rightarrow> 'w \<Rightarrow> 'w body) \<Rightarrow> exec_type \<Rightarrow>
     jsval \<Rightarrow> jsval list \<Rightarrow> 'w state \<Rightarrow> (settled \<times> 'w state) option" where
  "priv_wrap env fn type this arguments st =
     (case exec_by_type type env arguments st of
        None \<Rightarrow> None
      | Some (Rejected e, st1) \<Rightarrow> Some (Rejected e, st1)
      | Some (Resolved result, st1) \<Rightarrow>
          if \<not> truthy result then Some (Resolved Undefined, st1)
          else (case apply_fn fn this arguments st1 of
                  (Returned v, st2) \<Rightarrow> Some (Resolved v, st2)
                | (Threw e, st2) \<Rightarrow> Some (Rejected e, st2)))"

definition wrap ::
  "'w env \<Rightarrow> (jsval \<Rightarrow> jsval list \<Rightarrow> 'w \<Rightarrow> 'w body) \<Rightarrow>
     jsval \<Rightarrow> jsval list \<Rightarrow> 'w state \<Rightarrow> (settled \<times> 'w state) option" where
  "wrap env fn = priv_wrap env fn Process"

definition wrapWithStop ::
  "'w env \<Rightarrow> (jsval \<Rightarrow> jsval list \<Rightarrow> 'w \<Rightarrow> 'w body) \<Rightarrow>
     jsval \<Rightarrow> jsval list \<Rightarrow> 'w state \<Rightarrow> (settled \<times> 'w state) option" where
  "wrapWithStop env fn = priv_wrap env fn ProcessWithStop"


section \<open>Notions used to state the properties\<close>

text \<open>
  Insert-relative as the specification words it: next to every occurrence of the anchor,
  the candidate is put immediately before it (\<open>BEFORE\<close>) or immediately after it
  (\<open>AFTER\<close>); the result is built from the original elements only.
\<close>

definition insert_adjacent :: "jsval \<Rightarrow> jsval \<Rightarrow> nat \<Rightarrow> jsval list \<Rightarrow> jsval list" where
  "insert_adjacent middleware anchor position ms =
     concat (map (\<lambda>m. if m = anchor
                       then (if position = BEFORE then [middleware, m] else [m, middleware])
                       else [m]) ms)"

text \<open>
  The arrays in use lie below the next address to be handed out; every state reached from
  \<open>new_Middlewares\<close> is so, and a new array then never overwrites one a running loop
  still reads.
\<close>

definition wf_state :: "'w state \<Rightarrow> bool" where
  "wf_state st = (middlewares st < fresh st)"

text \<open>
  A step that makes no call of a mutation method, whatever the replies to its calls of
  \<open>stop\<close>; and a chain all of whose steps are so, for every argument list and world.
\<close>

fun is_mutation :: "call \<Rightarrow> bool" where
  "is_mutation (Stop arguments) = False"
| "is_mutation c = True"

fun mutation_free :: "'w body \<Rightarrow> bool" where
  "mutation_free (Return v w) = True"
| "mutation_free (Throw e w) = True"
| "mutation_free (Call c k h) = (\<not> is_mutation c \<and> mutation_free k \<and> mutation_free h)"

definition steps_mutation_free :: "'w env \<Rightarrow> jsval list \<Rightarrow> bool" where
  "steps_mutation_free env ms = (\<forall>m\<in>set ms. \<forall>arguments w. mutation_free (env m arguments w))"

text \<open>
  Reading the observation log: the steps invoked, with their arguments, in order; and
  whether an event is a call of the \<open>stop\<close> callback.
\<close>

fun invocations :: "event list \<Rightarrow> (jsval \<times> jsval list) list" where
  "invocations [] = []"
| "invocations (Invoked m arguments # es) = (m, arguments) # invocations es"
| "invocations (e # es) = invocations es"

fun is_stop_call :: "event \<Rightarrow> bool" where
  "is_stop_call (StopCalled arguments) = True"
| "is_stop_call e = False"

text \<open>
  A run as the specification describes it, on the list of steps instead of the live
  array: the steps are taken one after another; each is called with the argument list
  \<open>arguments\<close>, in the world the steps before it left (\<open>env m arguments (world st1)\<close>),
  and awaited; a call that throws rejects the run; after a call that returns the run
  stops with \<open>false\<close> when the stop condition holds, and goes on to the next step
  otherwise; when no step is left the run resolves to \<open>true\<close>.  The stop condition is
  that the returned value is the boolean \<open>false\<close> for run-until-false
  (\<open>has_stop = False\<close>), and that the flag is set for run-until-signaled
  (\<open>has_stop = True\<close>, where \<open>arguments\<close> is the caller's list followed by the callback).
\<close>

fun run_steps ::
  "bool \<Rightarrow> 'w env \<Rightarrow> jsval list \<Rightarrow> jsval list \<Rightarrow> bool \<Rightarrow> 'w state \<Rightarrow> settled \<times> 'w state" where
  "run_steps has_stop env arguments [] isStop st = (Resolved (Bool True), st)"
| "run_steps has_stop env arguments (m # ms) isStop st =
     (let st1 = st\<lparr>trace := trace st @ [Invoked m arguments]\<rparr>;
          (r, isStop', st2) = run_body has_stop (env m arguments (world st1)) isStop st1;
          st3 = st2\<lparr>trace := trace st2 @ [Completed r]\<rparr>
      in case r of
           Threw e \<Rightarrow> (Rejected e, st3)
         | Returned v \<Rightarrow>
             if (if has_stop then isStop' else v = Bool False) then (Resolved (Bool False), st3)
             else run_steps has_stop env arguments ms isStop' st3)"

section \<open>Example steps\<close>

text \<open>
  Steps for the concrete runs below; the world is a counter that every step that
  completes normally increments.
  \<^item> \<open>Function 1\<close>: \<^verbatim>\<open>() => 0\<close>
  \<^item> \<open>Function 2\<close>: \<^verbatim>\<open>() => false\<close>
  \<^item> \<open>AsyncFunction 3\<close>: \<^verbatim>\<open>async (..., stop) => { stop(); return true }\<close>
  \<^item> \<open>Function 4\<close>: \<^verbatim>\<open>(..., stop) => { stop(new Error('boom')) }\<close>
  \<^item> \<open>Function 5\<close>:
    \<^verbatim>\<open>(..., stop) => { try { stop(new Error('boom')) } catch (e) { return 'caught' } }\<close>
  \<^item> \<open>Function 6\<close>: \<^verbatim>\<open>() => null\<close>
  \<^item> \<open>Function 7\<close>: \<^verbatim>\<open>() => { throw new Error('own') }\<close>
  \<^item> \<open>Function 10\<close>: \<^verbatim>\<open>() => { instance.use(f6) }\<close>, for \<open>f6\<close> the \<open>Function 6\<close>
  \<^item> \<open>Function 11\<close>: \<^verbatim>\<open>() => { instance.unuse(f6) }\<close>
  \<^item> \<open>Function 12\<close>: \<^verbatim>\<open>(x) => x\<close>, which returns its first argument
  \<^item> \<open>Function 13\<close>: \<^verbatim>\<open>(user, stop) => { if (user !== 'admin') stop() }\<close>, the step
    of the README; its second argument is the callback or, here, nothing that can be
    called
  \<^item> every other function: \<^verbatim>\<open>() => {}\<close>

  \<open>example_fn\<close> is a downstream function for \<open>wrap\<close>, \<^verbatim>\<open>function () { return 2 }\<close>,
  which adds 100 to the counter.
\<close>

definition example_env :: "nat env" where
  "example_env m arguments w =
     (if m = Function 1 then Return (Num 0) (w + 1)
      else if m = Function 2 then Return (Bool False) (w + 1)
      else if m = AsyncFunction 3
        then Call (Stop []) (Return (Bool True) (w + 1)) (Throw Undefined w)
      else if m = Function 4
        then Call (Stop [Error ''boom'']) (Return Undefined (w + 1)) (Throw (Error ''boom'') w)
      else if m = Function 5
        then Call (Stop [Error ''boom'']) (Return Undefined (w + 1)) (Return (Str ''caught'') (w + 1))
      else if m = Function 6 then Return Null (w + 1)
      else if m = Function 7 then Throw (Error ''own'') w
      else if m = Function 10
        then Call (CallUse [Function 6]) (Return Undefined (w + 1))
               (Throw (MiddlewaresError VALUE_IS_NOT_A_MIDDLEWARE) w)
      else if m = Function 11
        then Call (CallUnuse [Function 6]) (Return Undefined (w + 1))
               (Throw (MiddlewaresError VALUE_IS_NOT_A_MIDDLEWARE) w)
      else if m = Function 12
        then Return (case arguments of [] \<Rightarrow> Undefined | x # rest \<Rightarrow> x) (w + 1)
      else if m = Function 13
        then (let user = (case arguments of [] \<Rightarrow> Undefined | u # rest \<Rightarrow> u);
                  cb = (case arguments of u # c # rest \<Rightarrow> c | other \<Rightarrow> Undefined)
              in if user = Str ''admin'' then Return Undefined (w + 1)
                 else if cb = StopCallback
                   then Call (Stop []) (Return Undefined (w + 1)) (Throw Undefined w)
                 else Throw (TypeError ''stop is not a function'') w)
      else Return Undefined (w + 1))"

definition example_fn :: "jsval \<Rightarrow> jsval list \<Rightarrow> nat \<Rightarrow> nat body" where
  "example_fn this arguments w = Return (Num 2) (w + 100)"


section \<open>The insert-relative scan and the mutation operations\<close>

lemma insert_adjacent_Nil: "insert_adjacent c anchor d [] = []"
  by (simp add: insert_adjacent_def)

lemma insert_adjacent_Cons:
  "insert_adjacent c anchor d (x # xs) =
     (if x = anchor then (if d = BEFORE then [c, x] else [x, c]) else [x]) @ insert_adjacent c anchor d xs"
  by (simp add: insert_adjacent_def)

lemma useRelative_loop_scan:
  assumes "diff = BEFORE \<or> diff = AFTER"
  shows "useRelative_loop c anchor diff (length pre) (pre @ rest) = pre @ insert_adjacent c anchor diff rest"
  using assms
proof (induction rest arbitrary: pre)
  case Nil
  then show ?case by (subst useRelative_loop.simps) (simp add: insert_adjacent_Nil)
next
  case (Cons x xs)
  show ?case
  proof (cases "anchor = x")
    case False
    have "useRelative_loop c anchor diff (length pre) (pre @ x # xs) =
          useRelative_loop c anchor diff (length (pre @ [x])) ((pre @ [x]) @ xs)"
      using False by (subst useRelative_loop.simps) simp
    also have "\<dots> = (pre @ [x]) @ insert_adjacent c anchor diff xs"
      using Cons.IH [of "pre @ [x]"] Cons.prems by blast
    finally show ?thesis using False by (simp add: insert_adjacent_Cons)
  next
    case True
    let ?new = "if diff = BEFORE then [c, x] else [x, c]"
    have sp: "splice_insert (pre @ x # xs) (length pre + diff) c = (pre @ ?new) @ xs"
      using Cons.prems by (auto simp: splice_insert_def BEFORE_def AFTER_def)
    have "useRelative_loop c anchor diff (length pre) (pre @ x # xs) =
          useRelative_loop c anchor diff (length (pre @ ?new)) ((pre @ ?new) @ xs)"
      using True sp by (subst useRelative_loop.simps) simp
    also have "\<dots> = (pre @ ?new) @ insert_adjacent c anchor diff xs"
      using Cons.IH [of "pre @ ?new"] Cons.prems by blast
    finally show ?thesis using True by (simp add: insert_adjacent_Cons)
  qed
qed

lemma useRelative_loop_insert_adjacent:
  "diff = BEFORE \<or> diff = AFTER \<Longrightarrow> useRelative_loop c anchor diff 0 ms = insert_adjacent c anchor diff ms"
  using useRelative_loop_scan [of diff c anchor "[]" ms] by simp

lemma length_insert_adjacent:
  "length (insert_adjacent c anchor d ms) = length ms + count_list ms anchor"
  by (induction ms) (auto simp: insert_adjacent_Nil insert_adjacent_Cons)

lemma count_insert_adjacent:
  "count_list (insert_adjacent c anchor d ms) anchor =
     (if c = anchor then 2 * count_list ms anchor else count_list ms anchor)"
  by (induction ms) (auto simp: insert_adjacent_Nil insert_adjacent_Cons)

lemma insert_adjacent_absent:
  "anchor \<notin> set ms \<Longrightarrow> insert_adjacent c anchor d ms = ms"
  by (induction ms) (auto simp: insert_adjacent_Nil insert_adjacent_Cons)

lemma isFunction_simps:
  "isFunction (Function k)" "isFunction (AsyncFunction k)" "isFunction StopCallback"
  "\<not> isFunction Undefined" "\<not> isFunction Null" "\<not> isFunction (Bool b)" "\<not> isFunction (Num n)"
  "\<not> isFunction (Str s)" "\<not> isFunction (GeneratorFunction k)" "\<not> isFunction (Object k)"
  "\<not> isFunction (Error m)" "\<not> isFunction (MiddlewaresError m)" "\<not> isFunction (TypeError m)"
  by (simp_all add: isFunction_def Tag_FUNCTION_def Tag_ASYNC_FUNCTION_def)

lemma priv_change_valid:
  "\<forall>c\<in>set cs. isFunction c \<Longrightarrow>
   priv_change cmd cs fn d st = (Returned Undefined, fold (\<lambda>c. commands cmd c fn d) cs st)"
  by (induction cs arbitrary: st) simp_all

lemma priv_change_invalid:
  "\<forall>c\<in>set pre. isFunction c \<Longrightarrow> \<not> isFunction bad \<Longrightarrow>
   priv_change cmd (pre @ bad # post) fn d st =
     (Threw (MiddlewaresError VALUE_IS_NOT_A_MIDDLEWARE), fold (\<lambda>c. commands cmd c fn d) pre st)"
  by (induction pre arbitrary: st) simp_all

lemma chain_priv_useOne: "chain (priv_useOne m st) = chain st @ [m]"
  by (simp add: chain_def priv_useOne_def)

lemma chain_priv_useFirst: "chain (priv_useFirst m st) = m # chain st"
  by (simp add: chain_def priv_useFirst_def)

lemma chain_priv_unuseOne: "chain (priv_unuseOne m st) = filter (\<lambda>x. x \<noteq> m) (chain st)"
  by (simp add: chain_def priv_unuseOne_def)

lemma chain_priv_useRelative:
  "d = BEFORE \<or> d = AFTER \<Longrightarrow>
   chain (priv_useRelative m fn d st) = insert_adjacent m fn d (chain st)"
  by (simp add: chain_def priv_useRelative_def useRelative_loop_insert_adjacent)

lemma commands_fun:
  "(\<lambda>c. commands Use c fn d) = priv_useOne"
  "(\<lambda>c. commands Unuse c fn d) = priv_unuseOne"
  "(\<lambda>c. commands UseFirst c fn d) = priv_useFirst"
  "(\<lambda>c. commands UseRelative c fn d) = (\<lambda>c. priv_useRelative c fn d)"
  by (simp_all add: fun_eq_iff)

lemma chain_fold_use: "chain (fold priv_useOne cs st) = chain st @ cs"
  by (induction cs arbitrary: st) (simp_all add: chain_priv_useOne)

lemma chain_fold_useFirst: "chain (fold priv_useFirst cs st) = rev cs @ chain st"
  by (induction cs arbitrary: st) (simp_all add: chain_priv_useFirst)

lemma chain_fold_unuse:
  "chain (fold priv_unuseOne cs st) = filter (\<lambda>m. m \<notin> set cs) (chain st)"
proof (induction cs arbitrary: st)
  case Nil
  show ?case by simp
next
  case (Cons c cs)
  have "chain (fold priv_unuseOne (c # cs) st) =
        filter (\<lambda>m. m \<notin> set cs) (chain (priv_unuseOne c st))"
    using Cons.IH [of "priv_unuseOne c st"] by simp
  also have "\<dots> = filter (\<lambda>m. m \<notin> set (c # cs)) (chain st)"
    by (auto simp: chain_priv_unuseOne intro: filter_cong)
  finally show ?case .
qed

lemma chain_fold_useRelative:
  "d = BEFORE \<or> d = AFTER \<Longrightarrow>
   chain (fold (\<lambda>c. priv_useRelative c fn d) cs st) =
     fold (\<lambda>c. insert_adjacent c fn d) cs (chain st)"
  by (induction cs arbitrary: st) (simp_all add: chain_priv_useRelative)

lemma fold_insert_adjacent_absent:
  "anchor \<notin> set ms \<Longrightarrow> fold (\<lambda>c. insert_adjacent c anchor d) cs ms = ms"
  by (induction cs) (simp_all add: insert_adjacent_absent)

lemma priv_useRelative_absent:
  "anchor \<notin> set (chain st) \<Longrightarrow> d = BEFORE \<or> d = AFTER \<Longrightarrow> priv_useRelative c anchor d st = st"
  by (simp add: priv_useRelative_def useRelative_loop_insert_adjacent insert_adjacent_absent chain_def)

lemma fold_useRelative_absent:
  "anchor \<notin> set (chain st) \<Longrightarrow> d = BEFORE \<or> d = AFTER \<Longrightarrow>
   fold (\<lambda>c. priv_useRelative c anchor d) cs st = st"
  by (induction cs) (simp_all add: priv_useRelative_absent)

lemma use_valid: "\<forall>c\<in>set cs. isFunction c \<Longrightarrow> use cs st = (Returned Undefined, fold priv_useOne cs st)"
  by (simp add: use_def priv_change_valid commands_fun)

lemma chain_use: "\<forall>c\<in>set cs. isFunction c \<Longrightarrow> chain (snd (use cs st)) = chain st @ cs"
  by (simp add: use_valid chain_fold_use)

lemma chain_new_Middlewares: "chain (new_Middlewares w) = []"
  by (simp add: chain_def new_Middlewares_def)

lemma length_fold_insert_adjacent:
  "length (fold (\<lambda>c. insert_adjacent c anchor d) cs ms) =
     length ms + count_list ms anchor * (\<Sum>j<length cs. 2 ^ count_list (take j cs) anchor)"
proof (induction cs arbitrary: ms)
  case Nil
  show ?case by simp
next
  case (Cons c cs)
  let ?S = "\<Sum>j<length cs. 2 ^ count_list (take j cs) anchor"
  have shift: "(\<Sum>j<length (c # cs). 2 ^ count_list (take j (c # cs)) anchor) =
        (1::nat) + (if c = anchor then 2 else 1) * ?S"
    by (simp add: sum.lessThan_Suc_shift sum_distrib_left del: sum.lessThan_Suc)
  have "length (fold (\<lambda>c. insert_adjacent c anchor d) (c # cs) ms) =
        length (insert_adjacent c anchor d ms) + count_list (insert_adjacent c anchor d ms) anchor * ?S"
    using Cons.IH [of "insert_adjacent c anchor d ms"] by simp
  also have "\<dots> = length ms + count_list ms anchor * (1 + (if c = anchor then 2 else 1) * ?S)"
    by (simp add: length_insert_adjacent count_insert_adjacent algebra_simps)
  finally show ?case by (simp only: shift)
qed

lemma sum_no_anchor:
  "anchor \<notin> set cs \<Longrightarrow> (\<Sum>j<length cs. 2 ^ count_list (take j cs) anchor) = length cs"
proof -
  assume a: "anchor \<notin> set cs"
  have "\<And>j. count_list (take j cs) anchor = 0"
    using a by (meson count_list_0_iff in_set_takeD)
  then show ?thesis by simp
qed

lemma useFirst_valid:
  "\<forall>c\<in>set cs. isFunction c \<Longrightarrow>
   useFirst cs st = (Returned Undefined, fold priv_useFirst (rev cs) st)"
  by (simp add: useFirst_def priv_change_valid commands_fun)

lemma chain_useFirst:
  "\<forall>c\<in>set cs. isFunction c \<Longrightarrow> chain (snd (useFirst cs st)) = cs @ chain st"
  by (simp add: useFirst_valid chain_fold_useFirst)


section \<open>Claims about the mutation operations\<close>


text \<open>
  Claim C3, as the code has it.  \<open>use\<close>, \<open>unuse\<close>, \<open>useBefore\<close> and \<open>useAfter\<close> check
  and apply their candidates one at a time from left to right: when the candidates before
  \<open>bad\<close> are valid and \<open>bad\<close> is not, the call throws the invalid-step error, the
  candidates after \<open>bad\<close> are not looked at, and the state is the one the call with
  exactly the candidates before \<open>bad\<close> leaves (which returns normally).  \<open>useFirst\<close>
  reverses its candidates first, so it checks and applies them from right to left: when
  the candidates after \<open>bad\<close> are valid, the call throws and the state is the one
  \<open>useFirst\<close> with exactly the candidates after \<open>bad\<close> leaves.
\<close>

theorem change_aborts_at_invalid_candidate:
  assumes valid: "\<forall>c\<in>set pre. isFunction c" and invalid: "\<not> isFunction bad"
  shows "use (pre @ bad # post) st =
           (Threw (MiddlewaresError VALUE_IS_NOT_A_MIDDLEWARE), snd (use pre st))
       \<and> unuse (pre @ bad # post) st =
           (Threw (MiddlewaresError VALUE_IS_NOT_A_MIDDLEWARE), snd (unuse pre st))
       \<and> useBefore anchor (pre @ bad # post) st =
           (Threw (MiddlewaresError VALUE_IS_NOT_A_MIDDLEWARE), snd (useBefore anchor pre st))
       \<and> useAfter anchor (pre @ bad # post) st =
           (Threw (MiddlewaresError VALUE_IS_NOT_A_MIDDLEWARE), snd (useAfter anchor pre st))
       \<and> useFirst (post @ bad # pre) st =
           (Threw (MiddlewaresError VALUE_IS_NOT_A_MIDDLEWARE), snd (useFirst pre st))
       \<and> fst (use pre st) = Returned Undefined
       \<and> fst (unuse pre st) = Returned Undefined
       \<and> fst (useBefore anchor pre st) = Returned Undefined
       \<and> fst (useAfter anchor pre st) = Returned Undefined
       \<and> fst (useFirst pre st) = Returned Undefined
       \<and> chain (snd (use (pre @ bad # post) st)) = chain st @ pre
       \<and> chain (snd (useFirst (post @ bad # pre) st)) = pre @ chain st"
proof -
  have rv: "\<forall>c\<in>set (rev pre). isFunction c"
    using valid by simp
  have f: "useFirst (post @ bad # pre) st =
           (Threw (MiddlewaresError VALUE_IS_NOT_A_MIDDLEWARE), snd (useFirst pre st))"
    using priv_change_invalid [OF rv invalid, of UseFirst "rev post" Undefined 0 st]
      priv_change_valid [OF rv, of UseFirst Undefined 0 st]
    by (simp add: useFirst_def)
  have u: "use (pre @ bad # post) st =
           (Threw (MiddlewaresError VALUE_IS_NOT_A_MIDDLEWARE), snd (use pre st))"
    by (simp add: use_def priv_change_invalid [OF valid invalid] priv_change_valid [OF valid])
  have n: "unuse (pre @ bad # post) st =
           (Threw (MiddlewaresError VALUE_IS_NOT_A_MIDDLEWARE), snd (unuse pre st))"
    by (simp add: unuse_def priv_change_invalid [OF valid invalid] priv_change_valid [OF valid])
  have b: "useBefore anchor (pre @ bad # post) st =
           (Threw (MiddlewaresError VALUE_IS_NOT_A_MIDDLEWARE), snd (useBefore anchor pre st))"
    by (simp add: useBefore_def priv_change_invalid [OF valid invalid] priv_change_valid [OF valid])
  have a: "useAfter anchor (pre @ bad # post) st =
           (Threw (MiddlewaresError VALUE_IS_NOT_A_MIDDLEWARE), snd (useAfter anchor pre st))"
    by (simp add: useAfter_def priv_change_invalid [OF valid invalid] priv_change_valid [OF valid])
  have r: "fst (use pre st) = Returned Undefined" "fst (unuse pre st) = Returned Undefined"
    "fst (useBefore anchor pre st) = Returned Undefined"
    "fst (useAfter anchor pre st) = Returned Undefined"
    "fst (useFirst pre st) = Returned Undefined"
    by (simp_all add: use_def unuse_def useBefore_def useAfter_def useFirst_def
        priv_change_valid [OF valid] priv_change_valid [OF rv])
  have cu: "chain (snd (use (pre @ bad # post) st)) = chain st @ pre"
    by (simp add: u chain_use [OF valid])
  have "chain (snd (useFirst pre st)) = pre @ chain st"
    using valid by (rule chain_useFirst)
  then have cf: "chain (snd (useFirst (post @ bad # pre) st)) = pre @ chain st"
    by (simp add: f)
  show ?thesis using u n b a f r cu cf by blast
qed

text \<open>The theorem at concrete chains.\<close>

theorem change_aborts_at_invalid_candidate_witness:
  "use [Function 1, Num 5, Function 2] (new_Middlewares ()) =
     (Threw (MiddlewaresError VALUE_IS_NOT_A_MIDDLEWARE), snd (use [Function 1] (new_Middlewares ())))
   \<and> chain (snd (use [Function 1, Num 5, Function 2] (new_Middlewares ()))) = [Function 1]
   \<and> chain (snd (useFirst [Function 2, Num 5, Function 1] (new_Middlewares ()))) = [Function 1]"
proof -
  have v: "\<forall>c\<in>set [Function 1]. isFunction c" and i: "\<not> isFunction (Num 5)"
    by (simp_all add: isFunction_simps)
  show ?thesis
    using change_aborts_at_invalid_candidate
      [OF v i, where post = "[Function 2]" and st = "new_Middlewares ()" and anchor = Undefined]
    by (simp add: chain_new_Middlewares chain_use chain_useFirst isFunction_simps)
qed

text \<open>
  The claim as the specification states it fails for \<open>useFirst\<close>: in
  \<open>useFirst(f1, 5, f2)\<close> on an empty chain the candidate after the invalid one is
  applied and the one before it is not.
\<close>

theorem change_aborts_at_invalid_candidate_counterexample:
  "useFirst [Function 1, Num 5, Function 2] (new_Middlewares ()) =
     (Threw (MiddlewaresError VALUE_IS_NOT_A_MIDDLEWARE),
      snd (useFirst [Function 2] (new_Middlewares ())))
   \<and> chain (snd (useFirst [Function 1, Num 5, Function 2] (new_Middlewares ()))) = [Function 2]
   \<and> chain (snd (useFirst [Function 1] (new_Middlewares ()))) = [Function 1]
   \<and> chain (snd (useFirst [Function 1, Num 5, Function 2] (new_Middlewares ())))
       \<noteq> chain (snd (useFirst [Function 1] (new_Middlewares ())))"
  by (simp add: useFirst_def isFunction_simps chain_def new_Middlewares_def priv_useFirst_def)

text \<open>
  Claim C4.  With valid candidates, \<open>useBefore\<close> and \<open>useAfter\<close> return normally and the
  chain becomes what inserting each candidate in turn next to every occurrence of the
  anchor gives (before each occurrence for \<open>BEFORE\<close>, after each for \<open>AFTER\<close>); the
  insertion is \<open>insert_adjacent\<close>, which looks at the elements that were there before the
  candidate went in and never at an element it has just inserted.  On
  \<open>[A, anchor, B, anchor, C]\<close> inserting \<open>Z\<close> before the anchor gives
  \<open>[A, Z, anchor, B, Z, anchor, C]\<close>.  When the anchor does not occur, the call returns
  normally and the state is unchanged.
\<close>

theorem useRelative_inserts_at_every_anchor:
  assumes valid: "\<forall>c\<in>set cs. isFunction c"
  shows "fst (useBefore anchor cs st) = Returned Undefined
       \<and> chain (snd (useBefore anchor cs st)) =
           fold (\<lambda>c. insert_adjacent c anchor BEFORE) cs (chain st)
       \<and> fst (useAfter anchor cs st) = Returned Undefined
       \<and> chain (snd (useAfter anchor cs st)) =
           fold (\<lambda>c. insert_adjacent c anchor AFTER) cs (chain st)
       \<and> (anchor \<notin> set (chain st) \<longrightarrow>
            useBefore anchor cs st = (Returned Undefined, st)
          \<and> useAfter anchor cs st = (Returned Undefined, st))
       \<and> (\<forall>A B C Z. chain st = [A, anchor, B, anchor, C] \<and> A \<noteq> anchor \<and> B \<noteq> anchor
              \<and> C \<noteq> anchor \<and> cs = [Z] \<longrightarrow>
            chain (snd (useBefore anchor cs st)) = [A, Z, anchor, B, Z, anchor, C]
          \<and> chain (snd (useAfter anchor cs st)) = [A, anchor, Z, B, anchor, Z, C])"
proof -
  have b: "useBefore anchor cs st =
             (Returned Undefined, fold (\<lambda>c. commands UseRelative c anchor BEFORE) cs st)"
    unfolding useBefore_def using valid by (rule priv_change_valid)
  have a: "useAfter anchor cs st =
             (Returned Undefined, fold (\<lambda>c. commands UseRelative c anchor AFTER) cs st)"
    unfolding useAfter_def using valid by (rule priv_change_valid)
  have cb: "chain (snd (useBefore anchor cs st)) =
              fold (\<lambda>c. insert_adjacent c anchor BEFORE) cs (chain st)"
    by (simp add: b commands_fun chain_fold_useRelative)
  have ca: "chain (snd (useAfter anchor cs st)) =
              fold (\<lambda>c. insert_adjacent c anchor AFTER) cs (chain st)"
    by (simp add: a commands_fun chain_fold_useRelative)
  have absent: "anchor \<notin> set (chain st) \<longrightarrow>
            useBefore anchor cs st = (Returned Undefined, st)
          \<and> useAfter anchor cs st = (Returned Undefined, st)"
    by (simp add: a b commands_fun fold_useRelative_absent)
  have ex: "\<forall>A B C Z. chain st = [A, anchor, B, anchor, C] \<and> A \<noteq> anchor \<and> B \<noteq> anchor
              \<and> C \<noteq> anchor \<and> cs = [Z] \<longrightarrow>
            chain (snd (useBefore anchor cs st)) = [A, Z, anchor, B, Z, anchor, C]
          \<and> chain (snd (useAfter anchor cs st)) = [A, anchor, Z, B, anchor, Z, C]"
    using ca cb by (auto simp: insert_adjacent_Cons insert_adjacent_Nil BEFORE_def AFTER_def)
  show ?thesis using a b ca cb absent ex by simp
qed

text \<open>The theorem at concrete chains.\<close>

theorem useRelative_inserts_at_every_anchor_witness:
  "chain (snd (useBefore (Function 9) [Function 7]
      (snd (use [Function 1, Function 9, Function 2, Function 9, Function 3] (new_Middlewares ())))))
     = [Function 1, Function 7, Function 9, Function 2, Function 7, Function 9, Function 3]
   \<and> chain (snd (useAfter (Function 9) [Function 7]
      (snd (use [Function 1, Function 9, Function 2, Function 9, Function 3] (new_Middlewares ())))))
     = [Function 1, Function 9, Function 7, Function 2, Function 9, Function 7, Function 3]
   \<and> useBefore (Function 4) [Function 7]
        (snd (use [Function 1, Function 9] (new_Middlewares ())))
     = (Returned Undefined, snd (use [Function 1, Function 9] (new_Middlewares ())))"
proof -
  have v: "\<forall>c\<in>set [Function 7]. isFunction c"
    by (simp add: isFunction_simps)
  show ?thesis
    using useRelative_inserts_at_every_anchor [OF v, of "Function 9"
        "snd (use [Function 1, Function 9, Function 2, Function 9, Function 3] (new_Middlewares ()))"]
      useRelative_inserts_at_every_anchor [OF v, of "Function 4"
        "snd (use [Function 1, Function 9] (new_Middlewares ()))"]
    by (simp add: chain_use isFunction_simps chain_new_Middlewares
        insert_adjacent_Cons insert_adjacent_Nil BEFORE_def AFTER_def)
qed

text \<open>
  Claim C5.  With valid candidates, \<open>unuse\<close> returns normally and the chain keeps exactly
  the elements equal to none of the candidates, in their order: every occurrence of a
  candidate goes, the result is a subsequence of the old chain, and when no candidate
  occurs in the chain the chain is as it was.  For one candidate \<open>x\<close> the call is
  \<open>#unuseOne\<close>, whose result is the chain filtered by \<open>m \<noteq> x\<close>.
\<close>

theorem unuse_removes_every_occurrence:
  assumes valid: "\<forall>c\<in>set cs. isFunction c"
  shows "fst (unuse cs st) = Returned Undefined
       \<and> chain (snd (unuse cs st)) = filter (\<lambda>m. m \<notin> set cs) (chain st)
       \<and> set (chain (snd (unuse cs st))) \<inter> set cs = {}
       \<and> subseq (chain (snd (unuse cs st))) (chain st)
       \<and> (set (chain st) \<inter> set cs = {} \<longrightarrow> chain (snd (unuse cs st)) = chain st)
       \<and> (\<forall>x. cs = [x] \<longrightarrow> snd (unuse cs st) = priv_unuseOne x st
              \<and> chain (priv_unuseOne x st) = filter (\<lambda>m. m \<noteq> x) (chain st))"
proof -
  have u: "unuse cs st = (Returned Undefined, fold priv_unuseOne cs st)"
    using valid by (simp add: unuse_def priv_change_valid commands_fun)
  have c: "chain (snd (unuse cs st)) = filter (\<lambda>m. m \<notin> set cs) (chain st)"
    by (simp add: u chain_fold_unuse)
  have d: "set (chain (snd (unuse cs st))) \<inter> set cs = {}"
    unfolding c by auto
  have s: "subseq (chain (snd (unuse cs st))) (chain st)"
    unfolding c by simp
  have n: "set (chain st) \<inter> set cs = {} \<longrightarrow> chain (snd (unuse cs st)) = chain st"
    unfolding c by (auto simp: filter_id_conv)
  have o: "\<forall>x. cs = [x] \<longrightarrow> snd (unuse cs st) = priv_unuseOne x st
              \<and> chain (priv_unuseOne x st) = filter (\<lambda>m. m \<noteq> x) (chain st)"
    using u by (auto simp: chain_priv_unuseOne)
  show ?thesis using u c d s n o by simp
qed

text \<open>The theorem at concrete chains.\<close>

theorem unuse_removes_every_occurrence_witness:
  "unuse [Function 1]
      (snd (use [Function 1, Function 2, Function 1, Function 3] (new_Middlewares ())))
     = (Returned Undefined, priv_unuseOne (Function 1)
         (snd (use [Function 1, Function 2, Function 1, Function 3] (new_Middlewares ()))))
   \<and> chain (snd (unuse [Function 1]
      (snd (use [Function 1, Function 2, Function 1, Function 3] (new_Middlewares ())))))
     = [Function 2, Function 3]
   \<and> chain (snd (unuse [Function 4]
      (snd (use [Function 1, Function 2, Function 1, Function 3] (new_Middlewares ())))))
     = [Function 1, Function 2, Function 1, Function 3]"
proof -
  have v: "\<forall>c\<in>set [Function 1]. isFunction c" "\<forall>c\<in>set [Function 4]. isFunction c"
    by (simp_all add: isFunction_simps)
  show ?thesis
    using unuse_removes_every_occurrence [OF v(1),
        of "snd (use [Function 1, Function 2, Function 1, Function 3] (new_Middlewares ()))"]
      unuse_removes_every_occurrence [OF v(2),
        of "snd (use [Function 1, Function 2, Function 1, Function 3] (new_Middlewares ()))"]
    by (simp add: chain_use isFunction_simps chain_new_Middlewares prod_eq_iff)
qed

text \<open>
  Claim C6.  With valid candidates, \<open>useFirst\<close> returns normally and puts the candidates
  at the head of the chain in the order the caller gave them; on a chain \<open>[X, Y]\<close>,
  \<open>useFirst(P, Q)\<close> gives \<open>[P, Q, X, Y]\<close>.
\<close>

theorem useFirst_keeps_caller_order:
  assumes valid: "\<forall>c\<in>set cs. isFunction c"
  shows "fst (useFirst cs st) = Returned Undefined
       \<and> chain (snd (useFirst cs st)) = cs @ chain st
       \<and> (\<forall>P Q X Y. cs = [P, Q] \<and> chain st = [X, Y] \<longrightarrow>
            chain (snd (useFirst cs st)) = [P, Q, X, Y])"
proof -
  have "\<forall>c\<in>set (rev cs). isFunction c"
    using valid by simp
  then have u: "useFirst cs st = (Returned Undefined, fold priv_useFirst (rev cs) st)"
    by (simp add: useFirst_def priv_change_valid commands_fun)
  have c: "chain (snd (useFirst cs st)) = cs @ chain st"
    by (simp add: u chain_fold_useFirst)
  show ?thesis using u c by auto
qed

text \<open>The theorem at concrete chains.\<close>

theorem useFirst_keeps_caller_order_witness:
  "fst (useFirst [Function 3, AsyncFunction 4]
      (snd (use [Function 1, Function 2] (new_Middlewares ())))) = Returned Undefined
   \<and> chain (snd (useFirst [Function 3, AsyncFunction 4]
      (snd (use [Function 1, Function 2] (new_Middlewares ())))))
     = [Function 3, AsyncFunction 4, Function 1, Function 2]"
proof -
  have v: "\<forall>c\<in>set [Function 3, AsyncFunction 4]. isFunction c"
    by (simp add: isFunction_simps)
  show ?thesis
    using useFirst_keeps_caller_order [OF v,
        of "snd (use [Function 1, Function 2] (new_Middlewares ()))"]
    by (simp add: chain_use isFunction_simps chain_new_Middlewares)
qed

text \<open>
  Claim C10, as the code has it.  The scan is a total function, and with valid candidates
  \<open>useBefore\<close> and \<open>useAfter\<close> return normally.  Each candidate adds one element per
  occurrence of the anchor in the chain at the moment the candidate is processed, and a
  candidate equal to the anchor doubles the number of occurrences the candidates after it
  see: the length grows by the number of occurrences before the call times the sum, over
  the candidates, of two to the number of earlier candidates equal to the anchor.  When no
  candidate equals the anchor that is the number of candidates times the number of
  occurrences; for the single candidate equal to the anchor it is the number of
  occurrences, one new copy next to each old one.
\<close>

theorem useRelative_growth:
  assumes valid: "\<forall>c\<in>set cs. isFunction c"
  shows "fst (useBefore anchor cs st) = Returned Undefined
       \<and> fst (useAfter anchor cs st) = Returned Undefined
       \<and> length (chain (snd (useBefore anchor cs st))) =
           length (chain st) + count_list (chain st) anchor
             * (\<Sum>j<length cs. 2 ^ count_list (take j cs) anchor)
       \<and> length (chain (snd (useAfter anchor cs st))) =
           length (chain st) + count_list (chain st) anchor
             * (\<Sum>j<length cs. 2 ^ count_list (take j cs) anchor)
       \<and> (anchor \<notin> set cs \<longrightarrow>
            length (chain (snd (useBefore anchor cs st))) =
              length (chain st) + length cs * count_list (chain st) anchor
          \<and> length (chain (snd (useAfter anchor cs st))) =
              length (chain st) + length cs * count_list (chain st) anchor)
       \<and> (cs = [anchor] \<longrightarrow>
            chain (snd (useBefore anchor cs st)) = insert_adjacent anchor anchor BEFORE (chain st)
          \<and> chain (snd (useAfter anchor cs st)) = insert_adjacent anchor anchor AFTER (chain st)
          \<and> length (chain (snd (useBefore anchor cs st))) =
              length (chain st) + count_list (chain st) anchor
          \<and> length (chain (snd (useAfter anchor cs st))) =
              length (chain st) + count_list (chain st) anchor
          \<and> count_list (chain (snd (useBefore anchor cs st))) anchor =
              2 * count_list (chain st) anchor
          \<and> count_list (chain (snd (useAfter anchor cs st))) anchor =
              2 * count_list (chain st) anchor)"
proof -
  have b: "useBefore anchor cs st =
             (Returned Undefined, fold (\<lambda>c. priv_useRelative c anchor BEFORE) cs st)"
    using valid by (simp add: useBefore_def priv_change_valid commands_fun)
  have a: "useAfter anchor cs st =
             (Returned Undefined, fold (\<lambda>c. priv_useRelative c anchor AFTER) cs st)"
    using valid by (simp add: useAfter_def priv_change_valid commands_fun)
  have cb: "chain (snd (useBefore anchor cs st)) =
              fold (\<lambda>c. insert_adjacent c anchor BEFORE) cs (chain st)"
    by (simp add: b chain_fold_useRelative)
  have ca: "chain (snd (useAfter anchor cs st)) =
              fold (\<lambda>c. insert_adjacent c anchor AFTER) cs (chain st)"
    by (simp add: a chain_fold_useRelative)
  have lb: "length (chain (snd (useBefore anchor cs st))) =
           length (chain st) + count_list (chain st) anchor
             * (\<Sum>j<length cs. 2 ^ count_list (take j cs) anchor)"
    unfolding cb by (rule length_fold_insert_adjacent)
  have la: "length (chain (snd (useAfter anchor cs st))) =
           length (chain st) + count_list (chain st) anchor
             * (\<Sum>j<length cs. 2 ^ count_list (take j cs) anchor)"
    unfolding ca by (rule length_fold_insert_adjacent)
  have na: "anchor \<notin> set cs \<longrightarrow>
            length (chain (snd (useBefore anchor cs st))) =
              length (chain st) + length cs * count_list (chain st) anchor
          \<and> length (chain (snd (useAfter anchor cs st))) =
              length (chain st) + length cs * count_list (chain st) anchor"
    by (simp add: la lb sum_no_anchor)
  have one: "cs = [anchor] \<longrightarrow>
            chain (snd (useBefore anchor cs st)) = insert_adjacent anchor anchor BEFORE (chain st)
          \<and> chain (snd (useAfter anchor cs st)) = insert_adjacent anchor anchor AFTER (chain st)
          \<and> length (chain (snd (useBefore anchor cs st))) =
              length (chain st) + count_list (chain st) anchor
          \<and> length (chain (snd (useAfter anchor cs st))) =
              length (chain st) + count_list (chain st) anchor
          \<and> count_list (chain (snd (useBefore anchor cs st))) anchor =
              2 * count_list (chain st) anchor
          \<and> count_list (chain (snd (useAfter anchor cs st))) anchor =
              2 * count_list (chain st) anchor"
    using ca cb by (auto simp: length_insert_adjacent count_insert_adjacent)
  have fb: "fst (useBefore anchor cs st) = Returned Undefined"
    by (simp add: b)
  have fa: "fst (useAfter anchor cs st) = Returned Undefined"
    by (simp add: a)
  show ?thesis using fb fa lb la na one by blast
qed

text \<open>The theorem at concrete chains.\<close>

theorem useRelative_growth_witness:
  "length (chain (snd (useBefore (Function 9) [Function 9]
      (snd (use [Function 1, Function 9, Function 9] (new_Middlewares ()))))))
     = 3 + 2
   \<and> length (chain (snd (useAfter (Function 9) [Function 7, Function 8]
      (snd (use [Function 1, Function 9, Function 9] (new_Middlewares ()))))))
     = 3 + 2 * 2"
proof -
  have v: "\<forall>c\<in>set [Function 9]. isFunction c" "\<forall>c\<in>set [Function 7, Function 8]. isFunction c"
    by (simp_all add: isFunction_simps)
  show ?thesis
    using useRelative_growth [OF v(1), of "Function 9"
        "snd (use [Function 1, Function 9, Function 9] (new_Middlewares ()))"]
      useRelative_growth [OF v(2), of "Function 9"
        "snd (use [Function 1, Function 9, Function 9] (new_Middlewares ()))"]
    by (simp add: chain_use isFunction_simps chain_new_Middlewares length_insert_adjacent)
qed

text \<open>
  The product formula of the specification fails when a candidate equal to the anchor is
  followed by another candidate: \<open>useBefore(f, f, f)\<close> on the chain \<open>[f]\<close> adds three
  elements, not two times one.
\<close>

theorem useRelative_growth_counterexample:
  "fst (useBefore (Function 9) [Function 9, Function 9]
      (snd (use [Function 9] (new_Middlewares ())))) = Returned Undefined
   \<and> chain (snd (use [Function 9] (new_Middlewares ()))) = [Function 9]
   \<and> chain (snd (useBefore (Function 9) [Function 9, Function 9]
      (snd (use [Function 9] (new_Middlewares ())))))
     = [Function 9, Function 9, Function 9, Function 9]
   \<and> length (chain (snd (useBefore (Function 9) [Function 9, Function 9]
      (snd (use [Function 9] (new_Middlewares ()))))))
     \<noteq> length (chain (snd (use [Function 9] (new_Middlewares ()))))
         + length [Function 9, Function 9]
           * count_list (chain (snd (use [Function 9] (new_Middlewares ())))) (Function 9)"
  by (simp add: useBefore_def use_def isFunction_simps chain_def new_Middlewares_def
      priv_useRelative_def priv_useOne_def useRelative_loop_insert_adjacent
      insert_adjacent_Cons insert_adjacent_Nil BEFORE_def)


section \<open>Running steps\<close>

lemma exec_call_frame:
  "\<not> is_mutation c \<Longrightarrow> exec_call hs c b st = (r, b', st') \<Longrightarrow>
   heap st' = heap st \<and> middlewares st' = middlewares st \<and> fresh st' = fresh st \<and> world st' = world st"
  by (cases c) (auto split: if_splits prod.splits)

lemma run_body_frame:
  "mutation_free body \<Longrightarrow> run_body hs body b st = (r, b', st') \<Longrightarrow>
   heap st' = heap st \<and> middlewares st' = middlewares st \<and> fresh st' = fresh st"
proof (induction body arbitrary: b st)
  case (Return v w)
  then show ?case by auto
next
  case (Throw e w)
  then show ?case by auto
next
  case (Call c k h)
  obtain r1 b1 st1 where e: "exec_call hs c b st = (r1, b1, st1)"
    by (metis prod_cases3)
  have f: "heap st1 = heap st \<and> middlewares st1 = middlewares st \<and> fresh st1 = fresh st"
    using exec_call_frame [OF _ e] Call.prems(1) by simp
  show ?case
  proof (cases r1)
    case (Returned v)
    then have "run_body hs k b1 st1 = (r, b', st')"
      using Call.prems(2) e by simp
    then show ?thesis using Call.IH(1) Call.prems(1) f by fastforce
  next
    case (Threw x)
    then have "run_body hs h b1 st1 = (r, b', st')"
      using Call.prems(2) e by simp
    then show ?thesis using Call.IH(2) Call.prems(1) f by fastforce
  qed
qed

lemma commands_trace: "trace (commands cmd m fn d st) = trace st"
  by (cases cmd)
     (simp_all add: priv_useOne_def priv_unuseOne_def priv_useFirst_def priv_useRelative_def)

lemma priv_change_trace: "trace (snd (priv_change cmd cs fn d st)) = trace st"
  by (induction cs arbitrary: st) (simp_all add: commands_trace)

lemma exec_call_trace:
  "exec_call hs c b st = (r, b', st') \<Longrightarrow>
   (\<exists>S. trace st' = trace st @ S \<and> (\<forall>e\<in>set S. is_stop_call e)
      \<and> (if hs then b' = (b \<or> S \<noteq> []) else S = [] \<and> b' = b))"
proof (cases c)
  case (Stop xs)
  assume "exec_call hs c b st = (r, b', st')"
  then show ?thesis using Stop
    by (auto simp: stop_def Let_def split: if_splits)
next
  case (CallUse xs)
  assume "exec_call hs c b st = (r, b', st')"
  then show ?thesis using CallUse priv_change_trace [of Use xs Undefined 0 st]
    by (auto simp: use_def split: prod.splits)
next
  case (CallUnuse xs)
  assume "exec_call hs c b st = (r, b', st')"
  then show ?thesis using CallUnuse priv_change_trace [of Unuse xs Undefined 0 st]
    by (auto simp: unuse_def split: prod.splits)
next
  case (CallUseFirst xs)
  assume "exec_call hs c b st = (r, b', st')"
  then show ?thesis using CallUseFirst priv_change_trace [of UseFirst "rev xs" Undefined 0 st]
    by (auto simp: useFirst_def split: prod.splits)
next
  case (CallUseBefore x xs)
  assume "exec_call hs c b st = (r, b', st')"
  then show ?thesis using CallUseBefore priv_change_trace [of UseRelative xs x BEFORE st]
    by (auto simp: useBefore_def split: prod.splits)
next
  case (CallUseAfter x xs)
  assume "exec_call hs c b st = (r, b', st')"
  then show ?thesis using CallUseAfter priv_change_trace [of UseRelative xs x AFTER st]
    by (auto simp: useAfter_def split: prod.splits)
next
  case CallReset
  assume "exec_call hs c b st = (r, b', st')"
  then show ?thesis using CallReset by (auto simp: reset_def)
qed

lemma run_body_trace:
  "run_body hs body b st = (r, b', st') \<Longrightarrow>
   (\<exists>S. trace st' = trace st @ S \<and> (\<forall>e\<in>set S. is_stop_call e)
      \<and> (if hs then b' = (b \<or> S \<noteq> []) else S = [] \<and> b' = b))"
proof (induction body arbitrary: b st)
  case (Return v w)
  then show ?case by auto
next
  case (Throw e w)
  then show ?case by auto
next
  case (Call c k h)
  obtain r1 b1 st1 where e: "exec_call hs c b st = (r1, b1, st1)"
    by (metis prod_cases3)
  obtain S1 where s1: "trace st1 = trace st @ S1" "\<forall>e\<in>set S1. is_stop_call e"
      "if hs then b1 = (b \<or> S1 \<noteq> []) else S1 = [] \<and> b1 = b"
    using exec_call_trace [OF e] by blast
  have "run_body hs (case r1 of Returned v \<Rightarrow> k | Threw x \<Rightarrow> h) b1 st1 = (r, b', st')"
    using Call.prems e by (cases r1) simp_all
  then obtain S2 where s2: "trace st' = trace st1 @ S2" "\<forall>e\<in>set S2. is_stop_call e"
      "if hs then b' = (b1 \<or> S2 \<noteq> []) else S2 = [] \<and> b' = b1"
    using Call.IH by (cases r1) (simp, blast)+
  show ?case
    by (rule exI [of _ "S1 @ S2"]) (use s1 s2 in \<open>auto split: if_splits\<close>)
qed

lemma run_body_no_stop:
  "run_body False body b st = (r, b', st') \<Longrightarrow> trace st' = trace st \<and> b' = b"
  using run_body_trace [of False body b st r b' st'] by auto

lemma process_loop_run_steps:
  assumes "steps_mutation_free env ms"
  shows "heap st a = ms \<Longrightarrow> i \<le> length ms \<Longrightarrow>
         process_loop env a i arguments st = Some (run_steps False env arguments (drop i ms) False st)"
proof (induction "length ms - i" arbitrary: i st)
  case 0
  then show ?case by (subst process_loop.simps) simp
next
  case (Suc n)
  then have lt: "i < length ms" by simp
  let ?m = "ms ! i"
  let ?st1 = "st\<lparr>trace := trace st @ [Invoked ?m arguments]\<rparr>"
  obtain r b st2 where rb: "run_body False (env ?m arguments (world ?st1)) False ?st1 = (r, b, st2)"
    by (metis prod_cases3)
  have mf: "mutation_free (env ?m arguments (world ?st1))"
    using assms lt by (simp add: steps_mutation_free_def)
  have h2: "heap st2 = heap st"
    using run_body_frame [OF mf rb] by simp
  let ?st3 = "st2\<lparr>trace := trace st2 @ [Completed r]\<rparr>"
  have IH: "process_loop env a (Suc i) arguments ?st3 =
              Some (run_steps False env arguments (drop (Suc i) ms) False ?st3)"
    using Suc.hyps(1) [of "Suc i" ?st3] Suc.hyps(2) Suc.prems h2 lt by simp
  have d: "drop i ms = ?m # drop (Suc i) ms"
    using lt by (simp add: Cons_nth_drop_Suc)
  show ?case
    apply (subst process_loop.simps)
    apply (simp only: d run_steps.simps Suc.prems(1) lt if_True Let_def rb prod.case)
    using IH run_body_no_stop [OF rb] by (cases r) (auto simp: Suc.prems(1))
qed

lemma processWithStop_loop_run_steps:
  assumes "steps_mutation_free env ms"
  shows "heap st a = ms \<Longrightarrow> i \<le> length ms \<Longrightarrow>
         processWithStop_loop env a i arguments isStop st =
           Some (run_steps True env (arguments @ [StopCallback]) (drop i ms) isStop st)"
proof (induction "length ms - i" arbitrary: i st isStop)
  case 0
  then show ?case by (subst processWithStop_loop.simps) simp
next
  case (Suc n)
  then have lt: "i < length ms" by simp
  let ?m = "ms ! i"
  let ?args = "arguments @ [StopCallback]"
  let ?st1 = "st\<lparr>trace := trace st @ [Invoked ?m ?args]\<rparr>"
  obtain r b st2 where rb: "run_body True (env ?m ?args (world ?st1)) isStop ?st1 = (r, b, st2)"
    by (metis prod_cases3)
  have mf: "mutation_free (env ?m ?args (world ?st1))"
    using assms lt by (simp add: steps_mutation_free_def)
  have h2: "heap st2 = heap st"
    using run_body_frame [OF mf rb] by simp
  let ?st3 = "st2\<lparr>trace := trace st2 @ [Completed r]\<rparr>"
  have IH: "processWithStop_loop env a (Suc i) arguments b ?st3 =
              Some (run_steps True env ?args (drop (Suc i) ms) b ?st3)"
    using Suc.hyps(1) [of "Suc i" ?st3 b] Suc.hyps(2) Suc.prems h2 lt by simp
  have d: "drop i ms = ?m # drop (Suc i) ms"
    using lt by (simp add: Cons_nth_drop_Suc)
  show ?case
    apply (subst processWithStop_loop.simps)
    apply (simp only: d run_steps.simps Suc.prems(1) lt if_True Let_def rb prod.case)
    using IH by (cases r) (auto simp: Suc.prems(1))
qed

lemma run_steps_frame:
  "steps_mutation_free env ms \<Longrightarrow> run_steps hs env arguments ms b st = (r, st') \<Longrightarrow>
   heap st' = heap st \<and> middlewares st' = middlewares st \<and> fresh st' = fresh st"
proof (induction ms arbitrary: b st)
  case Nil
  then show ?case by simp
next
  case (Cons m ms)
  let ?st1 = "st\<lparr>trace := trace st @ [Invoked m arguments]\<rparr>"
  obtain rp b1 st2 where rb: "run_body hs (env m arguments (world ?st1)) b ?st1 = (rp, b1, st2)"
    by (metis prod_cases3)
  have mf: "mutation_free (env m arguments (world ?st1))"
    using Cons.prems(1) by (simp add: steps_mutation_free_def)
  have f2: "heap st2 = heap st \<and> middlewares st2 = middlewares st \<and> fresh st2 = fresh st"
    using run_body_frame [OF mf rb] by simp
  have tl: "steps_mutation_free env ms"
    using Cons.prems(1) by (simp add: steps_mutation_free_def)
  let ?st3 = "st2\<lparr>trace := trace st2 @ [Completed rp]\<rparr>"
  show ?case
  proof (cases rp)
    case (Threw e)
    then show ?thesis using Cons.prems(2) rb f2 by auto
  next
    case (Returned v)
    show ?thesis
    proof (cases "if hs then b1 else v = Bool False")
      case True
      then show ?thesis using Cons.prems(2) rb f2 Returned by (auto split: if_splits)
    next
      case False
      then have "run_steps hs env arguments ms b1 ?st3 = (r, st')"
        using Cons.prems(2) rb Returned by (auto split: if_splits)
      then show ?thesis using Cons.IH [OF tl] f2 by fastforce
    qed
  qed
qed

lemma invocations_append: "invocations (xs @ ys) = invocations xs @ invocations ys"
  by (induction xs rule: invocations.induct) simp_all

lemma invocations_stop_calls: "\<forall>e\<in>set S. is_stop_call e \<Longrightarrow> invocations S = []"
  by (induction S rule: invocations.induct) simp_all


lemma dropWhile_stop_calls:
  "S \<noteq> [] \<Longrightarrow> \<forall>e\<in>set S. is_stop_call e \<Longrightarrow>
   dropWhile (\<lambda>e. \<not> is_stop_call e) (S @ rest) = S @ rest"
  by (cases S) simp_all


lemma process_run_steps:
  "steps_mutation_free env (chain st) \<Longrightarrow>
   process env arguments st = Some (run_steps False env arguments (chain st) False st)"
  unfolding process_def chain_def
  using process_loop_run_steps [of env "heap st (middlewares st)" st "middlewares st" 0 arguments]
  by simp

lemma processWithStop_run_steps:
  "steps_mutation_free env (chain st) \<Longrightarrow>
   processWithStop env arguments st =
     Some (run_steps True env (arguments @ [StopCallback]) (chain st) False st)"
  unfolding processWithStop_def chain_def
  using processWithStop_loop_run_steps
    [of env "heap st (middlewares st)" st "middlewares st" 0 arguments False]
  by simp

lemma snd_stop: "snd (stop xs b)"
  by (simp add: stop_def Let_def)


lemma stop_truthy: "truthy e \<Longrightarrow> stop (e # es) b = (Threw e, True)"
  by (simp add: stop_def)

lemma apply_fn_trace:
  "\<exists>rf b st2. run_body False (fn this arguments (world st1)) False
        (st1\<lparr>trace := trace st1 @ [Downstream this arguments]\<rparr>) = (rf, b, st2)
     \<and> trace st2 = trace st1 @ [Downstream this arguments]
     \<and> apply_fn fn this arguments st1 = (rf, st2)"
proof -
  let ?sd = "st1\<lparr>trace := trace st1 @ [Downstream this arguments]\<rparr>"
  obtain rf b st2 where rb: "run_body False (fn this arguments (world st1)) False ?sd = (rf, b, st2)"
    by (metis prod_cases3)
  have "trace st2 = trace st1 @ [Downstream this arguments]"
    using run_body_no_stop [OF rb] by simp
  moreover have "apply_fn fn this arguments st1 = (rf, st2)"
    using rb by (simp add: apply_fn_def)
  ultimately show ?thesis using rb by blast
qed

lemma priv_wrap_true:
  assumes "exec_by_type type env arguments st = Some (Resolved (Bool True), st1)"
  shows "\<exists>rf b st2. run_body False (fn this arguments (world st1)) False
          (st1\<lparr>trace := trace st1 @ [Downstream this arguments]\<rparr>) = (rf, b, st2)
        \<and> trace st2 = trace st1 @ [Downstream this arguments]
        \<and> priv_wrap env fn type this arguments st =
            Some (case rf of Returned v \<Rightarrow> Resolved v | Threw e \<Rightarrow> Rejected e, st2)"
proof -
  obtain rf b st2 where a: "run_body False (fn this arguments (world st1)) False
        (st1\<lparr>trace := trace st1 @ [Downstream this arguments]\<rparr>) = (rf, b, st2)"
     "trace st2 = trace st1 @ [Downstream this arguments]"
     "apply_fn fn this arguments st1 = (rf, st2)"
    using apply_fn_trace [of fn this arguments st1] by blast
  have "priv_wrap env fn type this arguments st =
            Some (case rf of Returned v \<Rightarrow> Resolved v | Threw e \<Rightarrow> Rejected e, st2)"
    using assms a(3) by (cases rf) (simp_all add: priv_wrap_def)
  then show ?thesis using a by blast
qed

lemma priv_wrap_false:
  assumes "exec_by_type type env arguments st = Some (Resolved (Bool False), st1)"
  shows "priv_wrap env fn type this arguments st = Some (Resolved Undefined, st1)"
  using assms by (simp add: priv_wrap_def)

lemma process_loop_trace:
  assumes "process_loop env a i arguments st = Some (r, st')"
  shows "\<exists>T. trace st' = trace st @ T
     \<and> (\<forall>e\<in>set T. (\<exists>m. e = Invoked m arguments) \<or> (\<exists>rp. e = Completed rp))
     \<and> (Completed (Returned (Bool False)) \<in> set T \<longrightarrow>
          r = Resolved (Bool False) \<and> last T = Completed (Returned (Bool False)))
     \<and> (\<forall>e. Completed (Threw e) \<in> set T \<longrightarrow> r = Rejected e \<and> last T = Completed (Threw e))
     \<and> ((\<forall>rp. Completed rp \<in> set T \<longrightarrow> (\<exists>v. rp = Returned v \<and> v \<noteq> Bool False)) \<longrightarrow>
          r = Resolved (Bool True))"
  using assms
proof (induction env a i arguments st "(r, st')" arbitrary: r st'
    rule: process_loop.raw_induct [rotated 1, consumes 1])
  case (1 process_loop' env a i arguments st)
  show ?case
  proof (cases "i < length (heap st a)")
    case False
    then show ?thesis using 1(2) by auto
  next
    case True
    let ?m = "heap st a ! i"
    let ?st1 = "st\<lparr>trace := trace st @ [Invoked ?m arguments]\<rparr>"
    obtain rp b st2 where rb:
      "run_body False (env ?m arguments (world ?st1)) False ?st1 = (rp, b, st2)"
      by (metis prod_cases3)
    have t2: "trace st2 = trace st @ [Invoked ?m arguments]"
      using run_body_no_stop [OF rb] by simp
    let ?st3 = "st2\<lparr>trace := trace st2 @ [Completed rp]\<rparr>"
    show ?thesis
    proof (cases rp)
      case (Threw e)
      then have "r = Rejected e" "st' = ?st3"
        using 1(2) True rb by auto
      then show ?thesis
        using t2 Threw by (intro exI [of _ "[Invoked ?m arguments, Completed (Threw e)]"]) auto
    next
      case (Returned v)
      show ?thesis
      proof (cases "v = Bool False")
        case vf: True
        then have "r = Resolved (Bool False)" "st' = ?st3"
          using 1(2) True rb Returned by auto
        then show ?thesis
          using t2 Returned vf
          by (intro exI [of _ "[Invoked ?m arguments, Completed (Returned (Bool False))]"]) auto
      next
        case vt: False
        then have step: "process_loop' env a (i + 1) arguments ?st3 = Some (r, st')"
          using 1(2) True rb Returned by auto
        from 1(1) [OF step] obtain T where T: "trace st' = trace ?st3 @ T"
          "\<forall>e\<in>set T. (\<exists>m. e = Invoked m arguments) \<or> (\<exists>rp. e = Completed rp)"
          "Completed (Returned (Bool False)) \<in> set T \<longrightarrow>
            r = Resolved (Bool False) \<and> last T = Completed (Returned (Bool False))"
          "\<forall>e. Completed (Threw e) \<in> set T \<longrightarrow> r = Rejected e \<and> last T = Completed (Threw e)"
          "(\<forall>rp. Completed rp \<in> set T \<longrightarrow> (\<exists>v. rp = Returned v \<and> v \<noteq> Bool False)) \<longrightarrow>
            r = Resolved (Bool True)"
          by blast
        show ?thesis
          using T t2 Returned vt
          by (intro exI [of _ "Invoked ?m arguments # Completed (Returned v) # T"]) auto
      qed
    qed
  qed
qed

lemma processWithStop_loop_trace:
  assumes "processWithStop_loop env a i arguments False st = Some (r, st')"
  shows "\<exists>T. trace st' = trace st @ T
     \<and> (\<forall>e\<in>set T. (\<exists>m. e = Invoked m (arguments @ [StopCallback]))
            \<or> (\<exists>rp. e = Completed rp) \<or> is_stop_call e)
     \<and> invocations (dropWhile (\<lambda>e. \<not> is_stop_call e) T) = []
     \<and> (\<forall>e. Completed (Threw e) \<in> set T \<longrightarrow> r = Rejected e \<and> last T = Completed (Threw e))
     \<and> ((\<exists>e\<in>set T. is_stop_call e) \<longrightarrow> r \<noteq> Resolved (Bool True))
     \<and> ((\<exists>e\<in>set T. is_stop_call e) \<and> (\<forall>e. Completed (Threw e) \<notin> set T) \<longrightarrow>
          r = Resolved (Bool False))
     \<and> ((\<forall>e\<in>set T. \<not> is_stop_call e) \<and> (\<forall>e. Completed (Threw e) \<notin> set T) \<longrightarrow>
          r = Resolved (Bool True))"
  using assms
proof (induction env a i arguments False st "(r, st')" arbitrary: r st'
    rule: processWithStop_loop.raw_induct [rotated 1, consumes 1])
  case (1 loop' env a i arguments st)
  show ?case
  proof (cases "i < length (heap st a)")
    case False
    then show ?thesis using 1(2) by auto
  next
    case True
    let ?m = "heap st a ! i"
    let ?args = "arguments @ [StopCallback]"
    let ?st1 = "st\<lparr>trace := trace st @ [Invoked ?m ?args]\<rparr>"
    obtain rp b1 st2 where rb:
      "run_body True (env ?m ?args (world ?st1)) False ?st1 = (rp, b1, st2)"
      by (metis prod_cases3)
    obtain S where S: "trace st2 = trace st @ Invoked ?m ?args # S"
        "\<forall>e\<in>set S. is_stop_call e" "b1 = (S \<noteq> [])"
      using run_body_trace [OF rb] by auto
    have iS: "invocations S = []"
      using S(2) by (rule invocations_stop_calls)
    have nS: "\<forall>e. Completed (Threw e) \<notin> set S"
      using S(2) by auto
    let ?st3 = "st2\<lparr>trace := trace st2 @ [Completed rp]\<rparr>"
    show ?thesis
    proof (cases rp)
      case (Threw e)
      then have res: "r = Rejected e" "st' = ?st3"
        using 1(2) True rb by auto
      have dw: "invocations (dropWhile (\<lambda>e. \<not> is_stop_call e) (S @ [Completed (Threw e)])) = []"
        using dropWhile_stop_calls [OF _ S(2), of "[Completed (Threw e)]"] iS
        by (cases "S = []") (simp_all add: invocations_append)
      show ?thesis
        using res S Threw iS nS dw
        by (intro exI [of _ "Invoked ?m ?args # S @ [Completed (Threw e)]"])
           (auto simp: invocations_append)
    next
      case (Returned v)
      show ?thesis
      proof (cases "S = []")
        case False
        then have res: "r = Resolved (Bool False)" "st' = ?st3"
          using 1(2) True rb Returned S(3) by auto
        have dw: "invocations (dropWhile (\<lambda>e. \<not> is_stop_call e) (S @ [Completed (Returned v)])) = []"
          using dropWhile_stop_calls [OF False S(2), of "[Completed (Returned v)]"] iS
          by (simp add: invocations_append)
        show ?thesis
          using res S Returned iS nS dw False
          by (intro exI [of _ "Invoked ?m ?args # S @ [Completed (Returned v)]"])
             (auto simp: invocations_append)
      next
        case e: True
        then have step: "loop' env a (i + 1) arguments False ?st3 = Some (r, st')"
          using 1(2) True rb Returned S(3) by auto
        from 1(1) [OF step] obtain T where T: "trace st' = trace ?st3 @ T"
          "\<forall>e\<in>set T. (\<exists>m. e = Invoked m (arguments @ [StopCallback]))
            \<or> (\<exists>rp. e = Completed rp) \<or> is_stop_call e"
          "invocations (dropWhile (\<lambda>e. \<not> is_stop_call e) T) = []"
          "\<forall>e. Completed (Threw e) \<in> set T \<longrightarrow> r = Rejected e \<and> last T = Completed (Threw e)"
          "(\<exists>e\<in>set T. is_stop_call e) \<longrightarrow> r \<noteq> Resolved (Bool True)"
          "(\<exists>e\<in>set T. is_stop_call e) \<and> (\<forall>e. Completed (Threw e) \<notin> set T) \<longrightarrow>
            r = Resolved (Bool False)"
          "(\<forall>e\<in>set T. \<not> is_stop_call e) \<and> (\<forall>e. Completed (Threw e) \<notin> set T) \<longrightarrow>
            r = Resolved (Bool True)"
          by blast
        show ?thesis
          using T S Returned e
          by (intro exI [of _ "Invoked ?m ?args # Completed (Returned v) # T"]) auto
      qed
    qed
  qed
qed

lemma process_trace:
  assumes "process env arguments st = Some (r, st')"
  shows "\<exists>T. trace st' = trace st @ T
     \<and> (\<forall>e\<in>set T. (\<exists>m. e = Invoked m arguments) \<or> (\<exists>rp. e = Completed rp))
     \<and> (Completed (Returned (Bool False)) \<in> set T \<longrightarrow>
          r = Resolved (Bool False) \<and> last T = Completed (Returned (Bool False)))
     \<and> (\<forall>e. Completed (Threw e) \<in> set T \<longrightarrow> r = Rejected e \<and> last T = Completed (Threw e))
     \<and> ((\<forall>rp. Completed rp \<in> set T \<longrightarrow> (\<exists>v. rp = Returned v \<and> v \<noteq> Bool False)) \<longrightarrow>
          r = Resolved (Bool True))"
  using assms unfolding process_def by (rule process_loop_trace)

lemma processWithStop_trace:
  assumes "processWithStop env arguments st = Some (r, st')"
  shows "\<exists>T. trace st' = trace st @ T
     \<and> (\<forall>e\<in>set T. (\<exists>m. e = Invoked m (arguments @ [StopCallback]))
            \<or> (\<exists>rp. e = Completed rp) \<or> is_stop_call e)
     \<and> invocations (dropWhile (\<lambda>e. \<not> is_stop_call e) T) = []
     \<and> (\<forall>e. Completed (Threw e) \<in> set T \<longrightarrow> r = Rejected e \<and> last T = Completed (Threw e))
     \<and> ((\<exists>e\<in>set T. is_stop_call e) \<longrightarrow> r \<noteq> Resolved (Bool True))
     \<and> ((\<exists>e\<in>set T. is_stop_call e) \<and> (\<forall>e. Completed (Threw e) \<notin> set T) \<longrightarrow>
          r = Resolved (Bool False))
     \<and> ((\<forall>e\<in>set T. \<not> is_stop_call e) \<and> (\<forall>e. Completed (Threw e) \<notin> set T) \<longrightarrow>
          r = Resolved (Bool True))"
  using assms unfolding processWithStop_def by (rule processWithStop_loop_trace)



lemma process_no_downstream:
  assumes "process env arguments st = Some (r, st1)"
  shows "\<exists>T. trace st1 = trace st @ T \<and> (\<forall>t a. Downstream t a \<notin> set T)"
proof -
  from process_trace [OF assms] obtain T where
    "trace st1 = trace st @ T"
    "\<forall>e\<in>set T. (\<exists>m. e = Invoked m arguments) \<or> (\<exists>rp. e = Completed rp)"
    by blast
  then show ?thesis by (intro exI [of _ T]) auto
qed

lemma processWithStop_no_downstream:
  assumes "processWithStop env arguments st = Some (r, st1)"
  shows "\<exists>T. trace st1 = trace st @ T \<and> (\<forall>t a. Downstream t a \<notin> set T)"
proof -
  from processWithStop_trace [OF assms] obtain T where
    "trace st1 = trace st @ T"
    "\<forall>e\<in>set T. (\<exists>m. e = Invoked m (arguments @ [StopCallback]))
            \<or> (\<exists>rp. e = Completed rp) \<or> is_stop_call e"
    by blast
  then show ?thesis by (intro exI [of _ T]) auto
qed






section \<open>The instance and its runs: basic facts\<close>

lemma isMiddleware_isFunction: "isMiddleware v = isFunction v"
  by (simp add: isMiddleware_def isFunction_def Tag_FUNCTION_def Tag_ASYNC_FUNCTION_def)

lemma wf_state_new: "wf_state (new_Middlewares w)"
  by (simp add: wf_state_def new_Middlewares_def)

lemma wf_state_commands: "wf_state st \<Longrightarrow> wf_state (commands cmd m fn d st)"
  by (cases cmd)
     (simp_all add: wf_state_def priv_useOne_def priv_unuseOne_def priv_useFirst_def
        priv_useRelative_def)

lemma wf_state_priv_change: "wf_state st \<Longrightarrow> wf_state (snd (priv_change cmd cs fn d st))"
  by (induction cs arbitrary: st) (simp_all add: wf_state_commands)

lemma wf_state_reset: "wf_state st \<Longrightarrow> wf_state (reset st)"
  by (simp add: wf_state_def reset_def)

lemma length_getter_chain: "length_getter st = length (chain st)"
  by (simp add: length_getter_def chain_def)

lemma reset_empties: "chain (reset st) = [] \<and> length_getter (reset st) = 0"
  by (simp add: chain_def length_getter_def reset_def)

lemma process_empty_chain:
  "chain st = [] \<Longrightarrow> process env arguments st = Some (Resolved (Bool True), st)"
  by (simp add: process_def chain_def process_loop.simps)

lemma processWithStop_empty_chain:
  "chain st = [] \<Longrightarrow> processWithStop env arguments st = Some (Resolved (Bool True), st)"
  by (simp add: processWithStop_def chain_def processWithStop_loop.simps)

text \<open>
  Steps that change the chain while it runs are seen by the loop.  A step that appends to
  the chain lengthens the array the loop is reading, and the appended step is invoked in
  the same run.
\<close>

lemma run_sees_appended_step:
  "map_option (\<lambda>(r, s). (r, trace s, chain s))
       (process example_env []
          (snd (use [Function 10, Function 1] (new_Middlewares (0::nat)))))
     = Some (Resolved (Bool True),
         [Invoked (Function 10) [], Completed (Returned Undefined),
          Invoked (Function 1) [], Completed (Returned (Num 0)),
          Invoked (Function 6) [], Completed (Returned Null)],
         [Function 10, Function 1, Function 6])"
  by code_simp

text \<open>
  \<open>unuse\<close> stores a new array and leaves the old one as it was, so a run in which a step
  removes a later step still invokes the removed step; the chain after the run is without
  it.
\<close>

lemma run_keeps_replaced_array:
  "map_option (\<lambda>(r, s). (r, trace s, chain s))
       (process example_env []
          (snd (use [Function 11, Function 6, Function 1] (new_Middlewares (0::nat)))))
     = Some (Resolved (Bool True),
         [Invoked (Function 11) [], Completed (Returned Undefined),
          Invoked (Function 6) [], Completed (Returned Null),
          Invoked (Function 1) [], Completed (Returned (Num 0))],
         [Function 11, Function 1])"
  by code_simp


section \<open>Claims about the execution operations\<close>


text \<open>
  Claim C1, as the code has it.  Called with a truthy argument \<open>e\<close>, the callback sets
  the flag and throws \<open>e\<close> there and then, inside the step: a step that does not catch it
  (its handler is \<open>Throw e w\<close>) ends with \<open>e\<close> thrown, and what it had after the call is
  not run.  In every run of \<open>processWithStop\<close> that settles: whenever a step's call ends
  with \<open>e\<close> thrown, the run rejects with \<open>e\<close> and that completion is the last event; no
  step is invoked after a call of the callback, and the run does not resolve to \<open>true\<close>;
  and when the callback was called but no step's call ended with a throw (the step caught
  the exception and completed), the run resolves to \<open>false\<close>.  On a chain whose steps
  leave the chain alone the run does settle.
\<close>

theorem processWithStop_signaled_error:
  "(\<forall>r st'. processWithStop env arguments st = Some (r, st') \<longrightarrow>
      (\<exists>T. trace st' = trace st @ T
         \<and> invocations (dropWhile (\<lambda>e. \<not> is_stop_call e) T) = []
         \<and> (\<forall>e. Completed (Threw e) \<in> set T \<longrightarrow>
              r = Rejected e \<and> last T = Completed (Threw e))
         \<and> ((\<exists>e\<in>set T. is_stop_call e) \<longrightarrow> r \<noteq> Resolved (Bool True))
         \<and> ((\<exists>e\<in>set T. is_stop_call e) \<and> (\<forall>e. Completed (Threw e) \<notin> set T) \<longrightarrow>
              r = Resolved (Bool False))))
   \<and> (\<forall>e es b. truthy e \<longrightarrow> stop (e # es) b = (Threw e, True))
   \<and> (\<forall>e es k w b s. truthy e \<longrightarrow>
        run_body True (Call (Stop (e # es)) k (Throw e w)) b s =
          (Threw e, True, s\<lparr>trace := trace s @ [StopCalled (e # es)], world := w\<rparr>))
   \<and> (steps_mutation_free env (chain st) \<longrightarrow>
        (\<exists>r st'. processWithStop env arguments st = Some (r, st')))"
proof (intro conjI allI impI)
  fix r st'
  assume "processWithStop env arguments st = Some (r, st')"
  from processWithStop_trace [OF this]
  show "\<exists>T. trace st' = trace st @ T
         \<and> invocations (dropWhile (\<lambda>e. \<not> is_stop_call e) T) = []
         \<and> (\<forall>e. Completed (Threw e) \<in> set T \<longrightarrow>
              r = Rejected e \<and> last T = Completed (Threw e))
         \<and> ((\<exists>e\<in>set T. is_stop_call e) \<longrightarrow> r \<noteq> Resolved (Bool True))
         \<and> ((\<exists>e\<in>set T. is_stop_call e) \<and> (\<forall>e. Completed (Threw e) \<notin> set T) \<longrightarrow>
              r = Resolved (Bool False))"
    by blast
next
  fix e es b
  assume "truthy e"
  then show "stop (e # es) b = (Threw e, True)"
    by (rule stop_truthy)
next
  fix e es k w b s
  assume "truthy e"
  then show "run_body True (Call (Stop (e # es)) k (Throw e w)) b s =
          (Threw e, True, s\<lparr>trace := trace s @ [StopCalled (e # es)], world := w\<rparr>)"
    by (simp add: stop_truthy)
next
  assume mf: "steps_mutation_free env (chain st)"
  show "\<exists>r st'. processWithStop env arguments st = Some (r, st')"
    using processWithStop_run_steps [OF mf, of arguments]
    by (metis surj_pair)
qed

text \<open>The theorem at concrete runs of the example steps.\<close>

theorem processWithStop_signaled_error_witness:
  "steps_mutation_free example_env [Function 1, Function 4, Function 6]
   \<and> truthy (Error ''boom'')
   \<and> stop [Error ''boom''] False = (Threw (Error ''boom''), True)
   \<and> map_option (\<lambda>(r, s). (r, trace s, world s))
       (processWithStop example_env [Num 1]
          (snd (use [Function 1, Function 4, Function 6] (new_Middlewares (0::nat)))))
     = Some (Rejected (Error ''boom''),
         [Invoked (Function 1) [Num 1, StopCallback], Completed (Returned (Num 0)),
          Invoked (Function 4) [Num 1, StopCallback], StopCalled [Error ''boom''],
          Completed (Threw (Error ''boom''))], 1)
   \<and> (\<exists>r st'. processWithStop example_env [Num 1]
          (snd (use [Function 1, Function 4, Function 6] (new_Middlewares (0::nat))))
        = Some (r, st'))"
proof -
  let ?s = "snd (use [Function 1, Function 4, Function 6] (new_Middlewares (0::nat)))"
  have c: "chain ?s = [Function 1, Function 4, Function 6]"
    by (simp add: chain_use isFunction_simps chain_new_Middlewares)
  have m: "steps_mutation_free example_env [Function 1, Function 4, Function 6]"
    by (simp add: steps_mutation_free_def example_env_def)
  have ms: "steps_mutation_free example_env (chain ?s)"
    unfolding c by (rule m)
  have tr: "truthy (Error ''boom'')"
    by simp
  have e1: "map_option (\<lambda>(r, s). (r, trace s, world s)) (processWithStop example_env [Num 1] ?s)
     = Some (Rejected (Error ''boom''),
         [Invoked (Function 1) [Num 1, StopCallback], Completed (Returned (Num 0)),
          Invoked (Function 4) [Num 1, StopCallback], StopCalled [Error ''boom''],
          Completed (Threw (Error ''boom''))], 1)"
    by code_simp
  have t: "stop [Error ''boom''] False = (Threw (Error ''boom''), True)
       \<and> (\<exists>r st'. processWithStop example_env [Num 1] ?s = Some (r, st'))"
    using processWithStop_signaled_error [of example_env "[Num 1]" ?s] ms tr by blast
  show ?thesis
    using m tr e1 t by blast
qed

text \<open>
  The claim as the specification states it fails twice.  A step that calls the callback
  with an error and catches what the callback throws (\<open>Function 5\<close>) completes, and the
  run resolves to \<open>false\<close> instead of failing with the error.  And the callback throws
  inside the step: of a step that has more to do after the call, the rest is not run (the
  world stays \<open>0\<close>), the step's call itself ends with the error thrown.
\<close>

theorem processWithStop_signaled_error_counterexample:
  "truthy (Error ''boom'')
   \<and> map_option (\<lambda>(r, s). (r, trace s, world s))
       (processWithStop example_env [Num 1]
          (snd (use [Function 1, Function 5, Function 6] (new_Middlewares (0::nat)))))
     = Some (Resolved (Bool False),
         [Invoked (Function 1) [Num 1, StopCallback], Completed (Returned (Num 0)),
          Invoked (Function 5) [Num 1, StopCallback], StopCalled [Error ''boom''],
          Completed (Returned (Str ''caught''))], 2)
   \<and> stop [Error ''boom''] False = (Threw (Error ''boom''), True)
   \<and> (\<lambda>(r, b, s). (r, b, world s))
        (run_body True
          (Call (Stop [Error ''boom'']) (Return (Str ''ran on after stop'') 1)
             (Throw (Error ''boom'') 0))
          False (new_Middlewares (0::nat)))
     = (Threw (Error ''boom''), True, 0)"
  by code_simp





text \<open>
  Claim C8.  The function \<open>wrap\<close> returns runs \<open>process\<close> with its own arguments (and
  \<open>wrapWithStop\<close> runs \<open>processWithStop\<close>).  If the run resolves to \<open>true\<close>, leaving the
  state \<open>st1\<close>, the downstream function is called in \<open>st1\<close> with the same \<open>this\<close> and
  the same arguments, that call is the one event added to the log, and the wrapped call
  settles as the downstream call does: it resolves to the value returned, or rejects with
  what was thrown.  If the run resolves to \<open>false\<close>, the wrapped call resolves to
  \<open>undefined\<close> in the very state \<open>st1\<close> the run left, and the log has no call of the
  downstream function.
\<close>

theorem wrap_gates_downstream:
  "(process env arguments st = Some (Resolved (Bool True), st1) \<longrightarrow>
      (\<exists>rf b st2. run_body False (fn this arguments (world st1)) False
          (st1\<lparr>trace := trace st1 @ [Downstream this arguments]\<rparr>) = (rf, b, st2)
        \<and> trace st2 = trace st1 @ [Downstream this arguments]
        \<and> wrap env fn this arguments st =
            Some (case rf of Returned v \<Rightarrow> Resolved v | Threw e \<Rightarrow> Rejected e, st2)))
   \<and> (process env arguments st = Some (Resolved (Bool False), st1) \<longrightarrow>
        wrap env fn this arguments st = Some (Resolved Undefined, st1)
        \<and> (\<exists>T. trace st1 = trace st @ T \<and> (\<forall>t a. Downstream t a \<notin> set T)))
   \<and> (processWithStop env arguments st = Some (Resolved (Bool True), st1) \<longrightarrow>
      (\<exists>rf b st2. run_body False (fn this arguments (world st1)) False
          (st1\<lparr>trace := trace st1 @ [Downstream this arguments]\<rparr>) = (rf, b, st2)
        \<and> trace st2 = trace st1 @ [Downstream this arguments]
        \<and> wrapWithStop env fn this arguments st =
            Some (case rf of Returned v \<Rightarrow> Resolved v | Threw e \<Rightarrow> Rejected e, st2)))
   \<and> (processWithStop env arguments st = Some (Resolved (Bool False), st1) \<longrightarrow>
        wrapWithStop env fn this arguments st = Some (Resolved Undefined, st1)
        \<and> (\<exists>T. trace st1 = trace st @ T \<and> (\<forall>t a. Downstream t a \<notin> set T)))"
  using priv_wrap_true [of Process env arguments st st1 fn this]
    priv_wrap_true [of ProcessWithStop env arguments st st1 fn this]
    priv_wrap_false [of Process env arguments st st1 fn this]
    priv_wrap_false [of ProcessWithStop env arguments st st1 fn this]
    process_no_downstream [of env arguments st "Resolved (Bool False)" st1]
    processWithStop_no_downstream [of env arguments st "Resolved (Bool False)" st1]
  by (simp add: wrap_def wrapWithStop_def)

text \<open>The theorem at concrete runs of the example steps.\<close>

theorem wrap_gates_downstream_witness:
  "map_option (\<lambda>(r, s). (r, trace s, world s))
       (wrap example_env example_fn (Object 1) [Num 1]
          (snd (use [Function 1, Function 6] (new_Middlewares (0::nat)))))
     = Some (Resolved (Num 2),
         [Invoked (Function 1) [Num 1], Completed (Returned (Num 0)),
          Invoked (Function 6) [Num 1], Completed (Returned Null),
          Downstream (Object 1) [Num 1]], 102)
   \<and> map_option (\<lambda>(r, s). (r, trace s, world s))
       (wrap example_env example_fn (Object 1) [Num 1]
          (snd (use [Function 1, Function 2, Function 6] (new_Middlewares (0::nat)))))
     = Some (Resolved Undefined,
         [Invoked (Function 1) [Num 1], Completed (Returned (Num 0)),
          Invoked (Function 2) [Num 1], Completed (Returned (Bool False))], 2)
   \<and> map_option (\<lambda>(r, s). (r, trace s, world s))
       (wrapWithStop example_env example_fn (Object 1) [Num 1]
          (snd (use [Function 2, Function 6] (new_Middlewares (0::nat)))))
     = Some (Resolved (Num 2),
         [Invoked (Function 2) [Num 1, StopCallback], Completed (Returned (Bool False)),
          Invoked (Function 6) [Num 1, StopCallback], Completed (Returned Null),
          Downstream (Object 1) [Num 1]], 102)
   \<and> map_option (\<lambda>(r, s). (r, trace s, world s))
       (wrapWithStop example_env example_fn (Object 1) [Num 1]
          (snd (use [AsyncFunction 3, Function 6] (new_Middlewares (0::nat)))))
     = Some (Resolved Undefined,
         [Invoked (AsyncFunction 3) [Num 1, StopCallback], StopCalled [],
          Completed (Returned (Bool True))], 1)"
proof -
  let ?t = "snd (use [Function 1, Function 6] (new_Middlewares (0::nat)))"
  let ?f = "snd (use [Function 1, Function 2, Function 6] (new_Middlewares (0::nat)))"
  have "map_option fst (process example_env [Num 1] ?t) = Some (Resolved (Bool True))"
    by code_simp
  then have ht: "process example_env [Num 1] ?t =
      Some (Resolved (Bool True), snd (the (process example_env [Num 1] ?t)))"
    by (cases "process example_env [Num 1] ?t") auto
  have "map_option fst (process example_env [Num 1] ?f) = Some (Resolved (Bool False))"
    by code_simp
  then have hf: "process example_env [Num 1] ?f =
      Some (Resolved (Bool False), snd (the (process example_env [Num 1] ?f)))"
    by (cases "process example_env [Num 1] ?f") auto
  have wt: "\<exists>rf b st2. wrap example_env example_fn (Object 1) [Num 1] ?t =
            Some (case rf of Returned v \<Rightarrow> Resolved v | Threw e \<Rightarrow> Rejected e, st2)"
    using wrap_gates_downstream [of example_env "[Num 1]" ?t
        "snd (the (process example_env [Num 1] ?t))" example_fn "Object 1"] ht
    by blast
  have wf: "wrap example_env example_fn (Object 1) [Num 1] ?f =
            Some (Resolved Undefined, snd (the (process example_env [Num 1] ?f)))"
    using wrap_gates_downstream [of example_env "[Num 1]" ?f
        "snd (the (process example_env [Num 1] ?f))" example_fn "Object 1"] hf
    by blast
  have e: "map_option (\<lambda>(r, s). (r, trace s, world s))
       (wrap example_env example_fn (Object 1) [Num 1] ?t)
     = Some (Resolved (Num 2),
         [Invoked (Function 1) [Num 1], Completed (Returned (Num 0)),
          Invoked (Function 6) [Num 1], Completed (Returned Null),
          Downstream (Object 1) [Num 1]], 102)"
    "map_option (\<lambda>(r, s). (r, trace s, world s))
       (wrap example_env example_fn (Object 1) [Num 1] ?f)
     = Some (Resolved Undefined,
         [Invoked (Function 1) [Num 1], Completed (Returned (Num 0)),
          Invoked (Function 2) [Num 1], Completed (Returned (Bool False))], 2)"
    "map_option (\<lambda>(r, s). (r, trace s, world s))
       (wrapWithStop example_env example_fn (Object 1) [Num 1]
          (snd (use [Function 2, Function 6] (new_Middlewares (0::nat)))))
     = Some (Resolved (Num 2),
         [Invoked (Function 2) [Num 1, StopCallback], Completed (Returned (Bool False)),
          Invoked (Function 6) [Num 1, StopCallback], Completed (Returned Null),
          Downstream (Object 1) [Num 1]], 102)"
    "map_option (\<lambda>(r, s). (r, trace s, world s))
       (wrapWithStop example_env example_fn (Object 1) [Num 1]
          (snd (use [AsyncFunction 3, Function 6] (new_Middlewares (0::nat)))))
     = Some (Resolved Undefined,
         [Invoked (AsyncFunction 3) [Num 1, StopCallback], StopCalled [],
          Completed (Returned (Bool True))], 1)"
    by code_simp+
  show ?thesis using wt wf e by blast
qed

text \<open>
  Claim C9.  On a chain whose steps make no call of a mutation method, \<open>process\<close> and
  \<open>processWithStop\<close> settle and leave the store of arrays and the reference
  \<open>#middlewares\<close> as they were: the chain has the same elements in the same order and
  the same length, whatever the outcome.
\<close>

theorem execution_leaves_chain_unchanged:
  assumes mf: "steps_mutation_free env (chain st)"
  shows "(\<exists>r st'. process env arguments st = Some (r, st')
            \<and> heap st' = heap st \<and> middlewares st' = middlewares st
            \<and> chain st' = chain st \<and> length_getter st' = length_getter st)
       \<and> (\<exists>r st'. processWithStop env arguments st = Some (r, st')
            \<and> heap st' = heap st \<and> middlewares st' = middlewares st
            \<and> chain st' = chain st \<and> length_getter st' = length_getter st)"
proof -
  obtain r1 s1 where rs1: "run_steps False env arguments (chain st) False st = (r1, s1)"
    by (metis surj_pair)
  obtain r2 s2 where rs2:
    "run_steps True env (arguments @ [StopCallback]) (chain st) False st = (r2, s2)"
    by (metis surj_pair)
  have p1: "process env arguments st = Some (r1, s1)"
    using process_run_steps [OF mf] rs1 by simp
  have p2: "processWithStop env arguments st = Some (r2, s2)"
    using processWithStop_run_steps [OF mf] rs2 by simp
  have f1: "heap s1 = heap st \<and> middlewares s1 = middlewares st"
    using run_steps_frame [OF mf rs1] by simp
  have f2: "heap s2 = heap st \<and> middlewares s2 = middlewares st"
    using run_steps_frame [OF mf rs2] by simp
  have "chain s1 = chain st \<and> length_getter s1 = length_getter st"
    using f1 by (simp add: chain_def length_getter_def)
  moreover have "chain s2 = chain st \<and> length_getter s2 = length_getter st"
    using f2 by (simp add: chain_def length_getter_def)
  ultimately show ?thesis using p1 p2 f1 f2 by blast
qed

text \<open>The theorem at concrete runs of the example steps.\<close>

theorem execution_leaves_chain_unchanged_witness:
  "steps_mutation_free example_env [Function 1, Function 2, AsyncFunction 3, Function 6]
   \<and> map_option (\<lambda>(r, s). (r, chain s, length_getter s))
       (process example_env [Num 1]
          (snd (use [Function 1, Function 6] (new_Middlewares (0::nat)))))
     = Some (Resolved (Bool True), [Function 1, Function 6], 2)
   \<and> map_option (\<lambda>(r, s). (r, chain s, length_getter s))
       (process example_env [Num 1]
          (snd (use [Function 1, Function 2, Function 6] (new_Middlewares (0::nat)))))
     = Some (Resolved (Bool False), [Function 1, Function 2, Function 6], 3)
   \<and> map_option (\<lambda>(r, s). (r, chain s, length_getter s))
       (processWithStop example_env [Num 1]
          (snd (use [Function 1, AsyncFunction 3, Function 6] (new_Middlewares (0::nat)))))
     = Some (Resolved (Bool False), [Function 1, AsyncFunction 3, Function 6], 3)
   \<and> map_option (\<lambda>(r, s). (r, chain s, length_getter s))
       (processWithStop example_env [Num 1]
          (snd (use [Function 1, Function 2, Function 6] (new_Middlewares (0::nat)))))
     = Some (Resolved (Bool True), [Function 1, Function 2, Function 6], 3)"
proof -
  have c1: "chain (snd (use [Function 1, Function 6] (new_Middlewares (0::nat))))
              = [Function 1, Function 6]"
    by (simp add: chain_use isFunction_simps chain_new_Middlewares)
  have m: "steps_mutation_free example_env
             [Function 1, Function 2, AsyncFunction 3, Function 6]"
    by (simp add: steps_mutation_free_def example_env_def)
  have m1: "steps_mutation_free example_env
      (chain (snd (use [Function 1, Function 6] (new_Middlewares (0::nat)))))"
    unfolding c1 by (simp add: steps_mutation_free_def example_env_def)
  have e: "map_option (\<lambda>(r, s). (r, chain s, length_getter s))
       (process example_env [Num 1]
          (snd (use [Function 1, Function 6] (new_Middlewares (0::nat)))))
     = Some (Resolved (Bool True), [Function 1, Function 6], 2)"
    "map_option (\<lambda>(r, s). (r, chain s, length_getter s))
       (process example_env [Num 1]
          (snd (use [Function 1, Function 2, Function 6] (new_Middlewares (0::nat)))))
     = Some (Resolved (Bool False), [Function 1, Function 2, Function 6], 3)"
    "map_option (\<lambda>(r, s). (r, chain s, length_getter s))
       (processWithStop example_env [Num 1]
          (snd (use [Function 1, AsyncFunction 3, Function 6] (new_Middlewares (0::nat)))))
     = Some (Resolved (Bool False), [Function 1, AsyncFunction 3, Function 6], 3)"
    "map_option (\<lambda>(r, s). (r, chain s, length_getter s))
       (processWithStop example_env [Num 1]
          (snd (use [Function 1, Function 2, Function 6] (new_Middlewares (0::nat)))))
     = Some (Resolved (Bool True), [Function 1, Function 2, Function 6], 3)"
    by code_simp+
  show ?thesis
    using execution_leaves_chain_unchanged [OF m1, of "[Num 1]"] m e
    by blast
qed

end
